theory Spec2Isabelle
  imports Complex_Main "HOL-Library.Sublist"
begin

section \<open>Time and randomness\<close>

text \<open>
  A \<^verbatim>\<open>datetime\<close> is a point on the time line, measured in seconds; a
  \<^verbatim>\<open>timedelta\<close> and a Python float holding seconds are durations, in seconds too.
  A float is an exact rational here: the rounding of binary floating point is not
  modelled. A \<^verbatim>\<open>timedelta\<close> holds whole microseconds:
  \<^verbatim>\<open>timedelta(seconds=x)\<close> rounds \<open>x\<close> to the nearest microsecond, a tie going to the
  even one, and \<^verbatim>\<open>timedelta(hours=h)\<close> with an integer \<open>h\<close> is \<open>3600 * h\<close> seconds.
  Adding a \<^verbatim>\<open>timedelta\<close> to a \<^verbatim>\<open>datetime\<close> is exact (the years of the model are
  not bounded by 9999).
\<close>

type_synonym datetime = rat
type_synonym seconds = rat

definition round_half_even :: "rat \<Rightarrow> int" where
  "round_half_even x =
     (let f = \<lfloor>x\<rfloor>; r = x - of_int f
      in if r < 1 / 2 then f else if 1 / 2 < r then f + 1 else if even f then f else f + 1)"

definition timedelta_seconds :: "seconds \<Rightarrow> seconds" where
  "timedelta_seconds x = of_int (round_half_even (x * 1000000)) / 1000000"

definition timedelta_hours :: "int \<Rightarrow> seconds" where
  "timedelta_hours h = of_int (h * 3600)"

text \<open>
  The module \<^verbatim>\<open>random\<close> is a generator with hidden state. The state is a stream
  of raw outputs and the position of the next one; every call consumes one output.
  \<^verbatim>\<open>random.random()\<close> is a 53-bit fraction in \<open>[0, 1)\<close>,
  \<^verbatim>\<open>random.uniform(a, b)\<close> is \<^verbatim>\<open>a + (b - a) * random()\<close>, and
  \<^verbatim>\<open>random.randint(a, b)\<close> raises \<^verbatim>\<open>ValueError\<close> on an empty range and
  otherwise picks one of the \<open>b - a + 1\<close> integers from \<open>a\<close> to \<open>b\<close>.
\<close>

type_synonym rng = "(nat \<Rightarrow> nat) \<times> nat"

datatype error = ValueError | ZeroDivisionError | IndexError

definition random_random :: "rng \<Rightarrow> rat \<times> rng" where
  "random_random g = (case g of (bits, pos) \<Rightarrow>
     (of_nat (bits pos mod 2 ^ 53) / 2 ^ 53, (bits, Suc pos)))"

definition random_uniform :: "rat \<Rightarrow> rat \<Rightarrow> rng \<Rightarrow> rat \<times> rng" where
  "random_uniform a b g = (case random_random g of (r, g') \<Rightarrow> (a + (b - a) * r, g'))"

definition randint_draw :: "int \<Rightarrow> int \<Rightarrow> rng \<Rightarrow> int \<times> rng" where
  "randint_draw a b g = (case g of (bits, pos) \<Rightarrow>
     (a + int (bits pos) mod (b - a + 1), (bits, Suc pos)))"

definition random_randint :: "int \<Rightarrow> int \<Rightarrow> rng \<Rightarrow> error + int \<times> rng" where
  "random_randint a b g = (if b < a then Inl ValueError else Inr (randint_draw a b g))"

section \<open>The pattern generator (utils/human\_patterns.py)\<close>

record commit_pattern_generator =
  min_commits :: int
  max_commits :: int
  window_hours :: int
  randomize :: bool

text \<open>
  The body of the clustering loop \<^verbatim>\<open>for _ in range(cluster_size)\<close>: it stops early
  (\<^verbatim>\<open>break\<close>) once enough times are collected or the walk has left the window.
  The loop state is the list collected so far, the walking time and the generator.
\<close>

type_synonym walk_state = "datetime list \<times> datetime \<times> rng"

fun cluster :: "nat \<Rightarrow> int \<Rightarrow> datetime \<Rightarrow> walk_state \<Rightarrow> walk_state" where
  "cluster 0 num_commits end_time st = st"
| "cluster (Suc k) num_commits end_time (commit_times, current_time, g) =
     (if int (length commit_times) \<ge> num_commits \<or> current_time \<ge> end_time
      then (commit_times, current_time, g)
      else (case random_uniform 60 300 g of (gap, g') \<Rightarrow>
        cluster k num_commits end_time
          (commit_times @ [current_time], current_time + timedelta_seconds gap, g')))"

text \<open>
  One pass of the \<^verbatim>\<open>while\<close> loop, once its condition holds: the draws are made in
  the order of the source (base interval, random factor, the clustering coin, and for a
  cluster its size).
\<close>

definition walk_step :: "int \<Rightarrow> datetime \<Rightarrow> walk_state \<Rightarrow> walk_state" where
  "walk_step num_commits end_time st = (case st of (commit_times, current_time, g) \<Rightarrow>
     (case random_uniform 600 2700 g of (base_interval, g1) \<Rightarrow>
      case random_uniform (7 / 10) (13 / 10) g1 of (random_factor, g2) \<Rightarrow>
      let interval = base_interval * random_factor in
      case random_random g2 of (coin, g3) \<Rightarrow>
        if coin < 1 / 5
        then (case randint_draw 2 4 g3 of (cluster_size, g4) \<Rightarrow>
                cluster (nat cluster_size) num_commits end_time (commit_times, current_time, g4))
        else (commit_times @ [current_time], current_time + timedelta_seconds interval, g3)))"

lemma cluster_length_mono:
  "length (fst st) \<le> length (fst (cluster k n e st))"
proof (induction k arbitrary: st)
  case 0
  show ?case by simp
next
  case (Suc k)
  obtain cts cur g where st: "st = (cts, cur, g)" by (cases st) auto
  show ?case
  proof (cases "int (length cts) \<ge> n \<or> cur \<ge> e")
    case True
    then show ?thesis by (simp add: st)
  next
    case False
    obtain gap g' where u: "random_uniform 60 300 g = (gap, g')"
      by (cases "random_uniform 60 300 g") auto
    have "length (fst (cts @ [cur], cur + timedelta_seconds gap, g'))
            \<le> length (fst (cluster k n e (cts @ [cur], cur + timedelta_seconds gap, g')))"
      by (rule Suc.IH)
    with False show ?thesis by (simp add: st u)
  qed
qed

lemma cluster_length_grows:
  assumes "int (length cts) < n" and "cur < e"
  shows "length cts < length (fst (cluster (Suc k) n e (cts, cur, g)))"
proof -
  obtain gap g' where u: "random_uniform 60 300 g = (gap, g')"
    by (cases "random_uniform 60 300 g") auto
  have "length (fst (cts @ [cur], cur + timedelta_seconds gap, g'))
          \<le> length (fst (cluster k n e (cts @ [cur], cur + timedelta_seconds gap, g')))"
    by (rule cluster_length_mono)
  with assms show ?thesis by (simp add: u)
qed

lemma randint_draw_range:
  assumes "a \<le> b"
  shows "a \<le> fst (randint_draw a b g) \<and> fst (randint_draw a b g) \<le> b"
proof -
  obtain bits pos where g: "g = (bits, pos)" by (cases g) auto
  have pos: "0 < b - a + 1" using assms by simp
  have "0 \<le> int (bits pos) mod (b - a + 1)" using pos by simp
  moreover have "int (bits pos) mod (b - a + 1) < b - a + 1"
    using pos by (rule pos_mod_bound)
  ultimately show ?thesis by (simp add: randint_draw_def g)
qed

lemma walk_step_length_grows:
  assumes "int (length cts) < n" and "cur < e"
  shows "length cts < length (fst (walk_step n e (cts, cur, g)))"
proof -
  obtain b g1 where u1: "random_uniform 600 2700 g = (b, g1)"
    by (cases "random_uniform 600 2700 g") auto
  obtain f g2 where u2: "random_uniform (7 / 10) (13 / 10) g1 = (f, g2)"
    by (cases "random_uniform (7 / 10) (13 / 10) g1") auto
  obtain c g3 where u3: "random_random g2 = (c, g3)"
    by (cases "random_random g2") auto
  obtain k g4 where u4: "randint_draw 2 4 g3 = (k, g4)"
    by (cases "randint_draw 2 4 g3") auto
  have "2 \<le> k" using randint_draw_range [of 2 4 g3] by (simp add: u4)
  then obtain k' where k': "nat k = Suc k'" by (cases "nat k") auto
  show ?thesis
  proof (cases "c < 1 / 5")
    case True
    have "length cts < length (fst (cluster (Suc k') n e (cts, cur, g4)))"
      using assms by (rule cluster_length_grows)
    then show ?thesis
      using True by (simp add: walk_step_def u1 u2 u3 u4 k' del: cluster.simps)
  next
    case False
    then show ?thesis by (simp add: walk_step_def u1 u2 u3)
  qed
qed

function walk :: "int \<Rightarrow> datetime \<Rightarrow> walk_state \<Rightarrow> walk_state" where
  "walk num_commits end_time (commit_times, current_time, g) =
     (if int (length commit_times) < num_commits \<and> current_time < end_time
      then walk num_commits end_time (walk_step num_commits end_time (commit_times, current_time, g))
      else (commit_times, current_time, g))"
  by pat_completeness auto
termination
proof (relation "measure (\<lambda>(n, e, st). nat (n - int (length (fst st))))")
  show "wf (measure (\<lambda>(n, e, st). nat (n - int (length (fst st)))))" by simp
next
  fix num_commits :: int and end_time :: datetime and commit_times :: "datetime list"
    and current_time :: datetime and g :: rng
  assume "int (length commit_times) < num_commits \<and> current_time < end_time"
  then have "length commit_times
      < length (fst (walk_step num_commits end_time (commit_times, current_time, g)))"
    by (simp add: walk_step_length_grows)
  with \<open>int (length commit_times) < num_commits \<and> current_time < end_time\<close>
  show "((num_commits, end_time, walk_step num_commits end_time (commit_times, current_time, g)),
         (num_commits, end_time, commit_times, current_time, g))
        \<in> measure (\<lambda>(n, e, st). nat (n - int (length (fst st))))"
    by simp
qed

text \<open>
  The slice \<^verbatim>\<open>xs[:n]\<close>: a negative bound counts from the end of the list.
\<close>

definition py_slice_to :: "int \<Rightarrow> 'a list \<Rightarrow> 'a list" where
  "py_slice_to n xs = (if 0 \<le> n then take (nat n) xs else take (length xs - nat (- n)) xs)"

text \<open>
  Indexing \<^verbatim>\<open>xs[i]\<close>: a negative index counts from the end, and an index out of
  range raises \<^verbatim>\<open>IndexError\<close>.
\<close>

definition py_index :: "'a list \<Rightarrow> int \<Rightarrow> error + 'a" where
  "py_index xs i =
     (if 0 \<le> i \<and> i < int (length xs) then Inr (xs ! nat i)
      else if - int (length xs) \<le> i \<and> i < 0 then Inr (xs ! nat (int (length xs) + i))
      else Inl IndexError)"

text \<open>The loop that fills the remaining slots with times drawn over the whole window.\<close>

function fill_remaining :: "int \<Rightarrow> datetime \<Rightarrow> int \<Rightarrow> datetime list \<times> rng \<Rightarrow> datetime list \<times> rng" where
  "fill_remaining num_commits start_time hours (commit_times, g) =
     (if int (length commit_times) < num_commits
      then (case random_uniform 0 (of_int (hours * 3600)) g of (x, g') \<Rightarrow>
              fill_remaining num_commits start_time hours
                (commit_times @ [start_time + timedelta_seconds x], g'))
      else (commit_times, g))"
  by pat_completeness auto
termination
  by (relation "measure (\<lambda>(n, s, h, st). nat (n - int (length (fst st))))")
     (auto split: prod.splits)

text \<open>
  The times collected before sorting: the walk, then truncation to the target count
  or filling up to it.
\<close>

definition collect_commit_times ::
    "commit_pattern_generator \<Rightarrow> datetime \<Rightarrow> int \<Rightarrow> rng \<Rightarrow> datetime list \<times> rng" where
  "collect_commit_times c start_time num_commits g =
     (let end_time = start_time + timedelta_hours (window_hours c) in
      case walk num_commits end_time ([], start_time, g) of (commit_times, current_time, g1) \<Rightarrow>
        if int (length commit_times) > num_commits
        then (py_slice_to num_commits commit_times, g1)
        else if int (length commit_times) < num_commits
        then fill_remaining num_commits start_time (window_hours c) (commit_times, g1)
        else (commit_times, g1))"

text \<open>
  The jitter loop: every time gets its own draw from \<open>[-120, 120)\<close>; a jittered time
  outside the window is dropped and the time is kept as it was. Nothing is sorted
  afterwards.
\<close>

fun add_jitter :: "datetime \<Rightarrow> datetime \<Rightarrow> datetime list \<Rightarrow> rng \<Rightarrow> datetime list" where
  "add_jitter start_time end_time [] g = []"
| "add_jitter start_time end_time (t # ts) g =
     (case random_uniform (- 120) 120 g of (jitter, g') \<Rightarrow>
        let jittered_time = t + timedelta_seconds jitter in
        (if start_time \<le> jittered_time \<and> jittered_time \<le> end_time then jittered_time else t)
          # add_jitter start_time end_time ts g')"

text \<open>
  The list after \<^verbatim>\<open>commit_times.sort()\<close>, together with the generator that
  the jitter loop goes on to use.
\<close>

definition sorted_commit_times ::
    "commit_pattern_generator \<Rightarrow> datetime \<Rightarrow> int \<Rightarrow> rng \<Rightarrow> datetime list \<times> rng" where
  "sorted_commit_times c start_time num_commits g =
     (case collect_commit_times c start_time num_commits g of (commit_times, g') \<Rightarrow>
        (sort commit_times, g'))"

definition generate_commit_schedule ::
    "commit_pattern_generator \<Rightarrow> datetime \<Rightarrow> rng \<Rightarrow> error + datetime list" where
  "generate_commit_schedule c start_time g =
     (if \<not> randomize c then
        (let num_commits = max_commits c in
         if num_commits = 0 then Inl ZeroDivisionError
         else let interval = of_int (window_hours c * 3600) / of_int num_commits in
           Inr (map (\<lambda>i. start_time + timedelta_seconds (of_nat i * interval))
                  [0 ..< nat num_commits]))
      else
        (case random_randint (min_commits c) (max_commits c) g of
           Inl e \<Rightarrow> Inl e
         | Inr (num_commits, g1) \<Rightarrow>
             let end_time = start_time + timedelta_hours (window_hours c) in
             case sorted_commit_times c start_time num_commits g1 of (commit_times, g2) \<Rightarrow>
               Inr (add_jitter start_time end_time commit_times g2)))"

section \<open>The schedule tracker (utils/scheduler\_manager.py)\<close>

definition COMMIT_WINDOW_HOURS :: int where
  "COMMIT_WINDOW_HOURS = 8"

record scheduler_manager =
  pattern_generator :: commit_pattern_generator
  schedule :: "datetime list"
  next_commit_idx :: int
  is_running :: bool
  start_time :: "datetime option"
  total_commits :: int
  successful_commits :: int

text \<open>
  The constructor; the two counts come from the settings
  (\<^verbatim>\<open>MIN_COMMITS_PER_DAY\<close>, \<^verbatim>\<open>MAX_COMMITS_PER_DAY\<close>).
\<close>

definition new_scheduler_manager :: "int \<Rightarrow> int \<Rightarrow> scheduler_manager" where
  "new_scheduler_manager min_per_day max_per_day =
     \<lparr> pattern_generator =
         \<lparr> min_commits = min_per_day, max_commits = max_per_day,
           window_hours = COMMIT_WINDOW_HOURS, randomize = True \<rparr>,
       schedule = [], next_commit_idx = 0, is_running = False, start_time = None,
       total_commits = 0, successful_commits = 0 \<rparr>"

text \<open>
  \<^verbatim>\<open>generate_new_schedule(start_from)\<close>; \<open>now\<close> is the clock, read when no start
  is given. An exception of the generator leaves the tracker as it was.
\<close>

definition generate_new_schedule ::
    "scheduler_manager \<Rightarrow> datetime option \<Rightarrow> datetime \<Rightarrow> rng
       \<Rightarrow> error + datetime list \<times> scheduler_manager" where
  "generate_new_schedule sm start_from now g =
     (let start = (case start_from of Some t \<Rightarrow> t | None \<Rightarrow> now) in
      case generate_commit_schedule (pattern_generator sm) start g of
        Inl e \<Rightarrow> Inl e
      | Inr sched \<Rightarrow>
          Inr (sched, sm\<lparr> schedule := sched, next_commit_idx := 0, start_time := Some start \<rparr>))"

definition get_next_commit_time :: "scheduler_manager \<Rightarrow> error + datetime option" where
  "get_next_commit_time sm =
     (if next_commit_idx sm < int (length (schedule sm))
      then (case py_index (schedule sm) (next_commit_idx sm) of
              Inl e \<Rightarrow> Inl e | Inr t \<Rightarrow> Inr (Some t))
      else Inr None)"

definition mark_commit_completed :: "scheduler_manager \<Rightarrow> bool \<Rightarrow> scheduler_manager" where
  "mark_commit_completed sm success =
     (let sm1 = sm\<lparr> next_commit_idx := next_commit_idx sm + 1 \<rparr>;
          sm2 = sm1\<lparr> total_commits := total_commits sm1 + 1 \<rparr>
      in if success then sm2\<lparr> successful_commits := successful_commits sm2 + 1 \<rparr> else sm2)"

record progress =
  total_scheduled :: int
  completed :: int
  remaining :: int
  upcoming :: int
  successful :: int
  next_commit :: "datetime option"
  window_end :: "datetime option"

text \<open>\<^verbatim>\<open>get_schedule_progress()\<close> reads the clock: \<open>now\<close> is that reading.\<close>

definition get_schedule_progress :: "scheduler_manager \<Rightarrow> datetime \<Rightarrow> progress" where
  "get_schedule_progress sm now =
     (let upcoming_times = filter (\<lambda>t. t > now) (schedule sm) in
      \<lparr> total_scheduled = int (length (schedule sm)),
        completed = next_commit_idx sm,
        remaining = int (length (schedule sm)) - next_commit_idx sm,
        upcoming = int (length upcoming_times),
        successful = successful_commits sm,
        next_commit = (case upcoming_times of [] \<Rightarrow> None | t # _ \<Rightarrow> Some t),
        window_end = (case start_time sm of
                        Some st \<Rightarrow> Some (st + timedelta_hours COMMIT_WINDOW_HOURS)
                      | None \<Rightarrow> None) \<rparr>)"

text \<open>
  \<^verbatim>\<open>wait_for_next_commit()\<close> returns the time it waited for and, beside it, how long
  it slept (\<^verbatim>\<open>asyncio.sleep\<close>), if it slept at all. It assigns to no field of the
  tracker.
\<close>

definition wait_for_next_commit ::
    "scheduler_manager \<Rightarrow> datetime \<Rightarrow> rng \<Rightarrow> error + datetime option \<times> seconds option" where
  "wait_for_next_commit sm now g =
     (if next_commit_idx sm \<ge> int (length (schedule sm)) then Inr (None, None)
      else case py_index (schedule sm) (next_commit_idx sm) of
        Inl e \<Rightarrow> Inl e
      | Inr next_time \<Rightarrow>
          if next_time \<le> now then Inr (Some next_time, None)
          else let wait_seconds = next_time - now in
            if wait_seconds > 0
            then (case random_uniform (- 30) 30 g of (jitter, g') \<Rightarrow>
                    let wait_seconds = max 1 (wait_seconds + jitter) in
                    Inr (Some next_time, Some wait_seconds))
            else Inr (Some next_time, None))"

definition should_stop :: "scheduler_manager \<Rightarrow> datetime \<Rightarrow> bool" where
  "should_stop sm now =
     (case start_time sm of
        None \<Rightarrow> False
      | Some st \<Rightarrow>
          let window_end = st + timedelta_hours COMMIT_WINDOW_HOURS in
          now \<ge> window_end \<or> next_commit_idx sm \<ge> int (length (schedule sm)))"

subsection \<open>The calling protocol of the tracker\<close>

text \<open>
  The operations of the tracker within one window, with the inputs each one reads: the
  clock, and for the wait the random generator. Of these only
  \<^verbatim>\<open>mark_commit_completed\<close> assigns to fields of the tracker; the others return a
  value and leave the tracker as it is.
\<close>

datatype tracker_op =
    WaitForNextCommit datetime rng
  | MarkCommitCompleted bool
  | GetNextCommitTime
  | GetScheduleProgress datetime
  | ShouldStop datetime

text \<open>
  The calling protocol: \<open>mark_commit_completed\<close> is called exactly once for every
  \<open>wait_for_next_commit\<close> that returned a time, before the next wait. The flag
  beside the tracker says that a returned time is still to be marked. A call that the
  protocol forbids gives \<open>None\<close>.
\<close>

fun protocol_step ::
    "tracker_op \<Rightarrow> scheduler_manager \<times> bool \<Rightarrow> (scheduler_manager \<times> bool) option" where
  "protocol_step (WaitForNextCommit now g) (sm, owed) =
     (if owed then None
      else (case wait_for_next_commit sm now g of
              Inl e \<Rightarrow> Some (sm, False)
            | Inr (None, slept) \<Rightarrow> Some (sm, False)
            | Inr (Some t, slept) \<Rightarrow> Some (sm, True)))"
| "protocol_step (MarkCommitCompleted success) (sm, owed) =
     (if owed then Some (mark_commit_completed sm success, False) else None)"
| "protocol_step GetNextCommitTime (sm, owed) = Some (sm, owed)"
| "protocol_step (GetScheduleProgress now) (sm, owed) = Some (sm, owed)"
| "protocol_step (ShouldStop now) (sm, owed) = Some (sm, owed)"

text \<open>The states after each operation of a run that follows the protocol.\<close>

fun protocol_run ::
    "tracker_op list \<Rightarrow> scheduler_manager \<times> bool \<Rightarrow> (scheduler_manager \<times> bool) list option" where
  "protocol_run [] st = Some []"
| "protocol_run (op # ops) st =
     (case protocol_step op st of
        None \<Rightarrow> None
      | Some st' \<Rightarrow> (case protocol_run ops st' of
                      None \<Rightarrow> None
                    | Some sts \<Rightarrow> Some (st' # sts)))"

section \<open>The repository agent (agents/github\_agent.py)\<close>

text \<open>
  Exceptions carry the text that \<^verbatim>\<open>str(e)\<close> gives. \<^verbatim>\<open>GitCommandError\<close> is
  the class the handlers of \<^verbatim>\<open>commit_and_push\<close> tell apart from every other
  \<^verbatim>\<open>Exception\<close>.
\<close>

datatype exn = GitCommandError string | OtherException string

text \<open>
  The string tests of the source: \<^verbatim>\<open>needle in text\<close>, \<^verbatim>\<open>text.lower()\<close> and
  \<^verbatim>\<open>text.strip()\<close>, on ASCII text.
\<close>

fun contains :: "string \<Rightarrow> string \<Rightarrow> bool" where
  "contains needle [] = (needle = [])"
| "contains needle (c # cs) = (prefix needle (c # cs) \<or> contains needle cs)"

fun lower_char :: "char \<Rightarrow> char" where
  "lower_char (Char b0 b1 b2 b3 b4 b5 b6 b7) =
     (let n = (of_char (Char b0 b1 b2 b3 b4 b5 b6 b7) :: nat)
      in if 65 \<le> n \<and> n \<le> 90 then Char b0 b1 b2 b3 b4 True b6 b7
         else Char b0 b1 b2 b3 b4 b5 b6 b7)"

definition lower :: "string \<Rightarrow> string" where
  "lower s = map lower_char s"

definition is_space :: "char \<Rightarrow> bool" where
  "is_space c = (let n = (of_char c :: nat) in (9 \<le> n \<and> n \<le> 13) \<or> (28 \<le> n \<and> n \<le> 32))"

definition strip :: "string \<Rightarrow> string" where
  "strip s = rev (dropWhile is_space (rev (dropWhile is_space s)))"

text \<open>
  The agent works on a repository outside the program. Every operation on it is
  recorded in \<open>calls\<close>; what the \<open>k\<close>-th operation does (raise, or return its output)
  is given by the \<open>world\<close>. A commit that succeeds adds its message to \<open>commits\<close>, the
  local history. The agent has been set up (\<^verbatim>\<open>self.repo\<close> is open); its
  lifecycle flags are \<open>is_empty_repo\<close> and \<open>initial_commit_done\<close>, and \<open>has_remotes\<close>
  says whether \<^verbatim>\<open>self.repo.remotes\<close> is non-empty.
\<close>

datatype git_op =
    GitAdd string
  | GitAddAll
  | GitStatusPorcelain
  | IndexCommit string
  | OriginPush
  | ActiveBranchName
  | OriginPushUpstream string
  | WriteReadme

type_synonym world = "nat \<Rightarrow> exn + string"

record github_agent =
  is_empty_repo :: bool
  initial_commit_done :: bool
  has_remotes :: bool
  commits :: "string list"
  calls :: "git_op list"

definition perform :: "world \<Rightarrow> git_op \<Rightarrow> github_agent \<Rightarrow> (exn + string) \<times> github_agent" where
  "perform w op a =
     (let a1 = a\<lparr> calls := calls a @ [op] \<rparr> in
      case w (length (calls a)) of
        Inl e \<Rightarrow> (Inl e, a1)
      | Inr out \<Rightarrow>
          (Inr out, (case op of IndexCommit m \<Rightarrow> a1\<lparr> commits := commits a1 @ [m] \<rparr> | _ \<Rightarrow> a1)))"

definition initial_commit_message :: string where
  "initial_commit_message = ''Initial commit: Setup repository structure''"

text \<open>
  \<^verbatim>\<open>create_initial_commit()\<close>: write the README, stage everything, commit; any
  exception is caught and gives \<^verbatim>\<open>False\<close>.
\<close>

definition create_initial_commit :: "world \<Rightarrow> github_agent \<Rightarrow> bool \<times> github_agent" where
  "create_initial_commit w a =
     (case perform w WriteReadme a of
        (Inl e, a1) \<Rightarrow> (False, a1)
      | (Inr _, a1) \<Rightarrow>
     (case perform w GitAddAll a1 of
        (Inl e, a2) \<Rightarrow> (False, a2)
      | (Inr _, a2) \<Rightarrow>
     (case perform w (IndexCommit initial_commit_message) a2 of
        (Inl e, a3) \<Rightarrow> (False, a3)
      | (Inr _, a3) \<Rightarrow> (True, a3\<lparr> is_empty_repo := False, initial_commit_done := True \<rparr>))))"

text \<open>The staging step: the given files one by one, or everything when none are given.\<close>

fun add_each :: "world \<Rightarrow> string list \<Rightarrow> github_agent \<Rightarrow> (exn + unit) \<times> github_agent" where
  "add_each w [] a = (Inr (), a)"
| "add_each w (f # fs) a =
     (case perform w (GitAdd f) a of
        (Inl e, a1) \<Rightarrow> (Inl e, a1)
      | (Inr _, a1) \<Rightarrow> add_each w fs a1)"

definition stage_files ::
    "world \<Rightarrow> string list option \<Rightarrow> github_agent \<Rightarrow> (exn + unit) \<times> github_agent" where
  "stage_files w files a =
     (case files of
        Some (f # fs) \<Rightarrow> add_each w (f # fs) a
      | _ \<Rightarrow> (case perform w GitAddAll a of
                (Inl e, a1) \<Rightarrow> (Inl e, a1)
              | (Inr _, a1) \<Rightarrow> (Inr (), a1)))"

text \<open>
  The push: a first push that fails for want of an upstream branch is repeated with
  the upstream set; any other failure is raised again.
\<close>

definition push_to_origin :: "world \<Rightarrow> github_agent \<Rightarrow> (exn + unit) \<times> github_agent" where
  "push_to_origin w a =
     (case perform w OriginPush a of
        (Inr _, a1) \<Rightarrow> (Inr (), a1)
      | (Inl (GitCommandError m), a1) \<Rightarrow>
          if contains ''no upstream branch'' (lower m)
          then (case perform w ActiveBranchName a1 of
                  (Inl e, a2) \<Rightarrow> (Inl e, a2)
                | (Inr current_branch, a2) \<Rightarrow>
                    (case perform w (OriginPushUpstream current_branch) a2 of
                       (Inl e, a3) \<Rightarrow> (Inl e, a3)
                     | (Inr _, a3) \<Rightarrow> (Inr (), a3)))
          else (Inl (GitCommandError m), a1)
      | (Inl e, a1) \<Rightarrow> (Inl e, a1))"

text \<open>The \<^verbatim>\<open>try\<close> block of \<^verbatim>\<open>commit_and_push\<close>: it returns, or raises.\<close>

definition commit_and_push_try ::
    "world \<Rightarrow> string \<Rightarrow> string list option \<Rightarrow> github_agent
       \<Rightarrow> (exn + bool \<times> string) \<times> github_agent" where
  "commit_and_push_try w commit_message files a =
     (case stage_files w files a of
        (Inl e, a1) \<Rightarrow> (Inl e, a1)
      | (Inr _, a1) \<Rightarrow>
     (case perform w GitStatusPorcelain a1 of
        (Inl e, a2) \<Rightarrow> (Inl e, a2)
      | (Inr status_output, a2) \<Rightarrow>
          if strip status_output = [] then (Inr (False, ''No changes to commit''), a2)
          else
     (case perform w (IndexCommit commit_message) a2 of
        (Inl e, a3) \<Rightarrow> (Inl e, a3)
      | (Inr _, a3) \<Rightarrow>
          if has_remotes a3
          then (case push_to_origin w a3 of
                  (Inl e, a4) \<Rightarrow> (Inl e, a4)
                | (Inr _, a4) \<Rightarrow> (Inr (True, commit_message), a4))
          else (Inr (True, commit_message @ '' (local only)''), a3))))"

definition head_issue :: "string \<Rightarrow> bool" where
  "head_issue m \<longleftrightarrow>
     contains ''HEAD'' m \<and> (contains ''did not resolve'' m \<or> contains ''not a valid object'' m)"

text \<open>
  \<^verbatim>\<open>commit_and_push\<close> with its handlers. After a successful initial commit it
  calls itself; nothing bounds the number of these calls, so the result is an option.
\<close>

partial_function (option) commit_and_push ::
    "world \<Rightarrow> string \<Rightarrow> string list option \<Rightarrow> github_agent
       \<Rightarrow> ((bool \<times> string) \<times> github_agent) option" where
  "commit_and_push w commit_message files a =
     (case commit_and_push_try w commit_message files a of
        (Inr r, a1) \<Rightarrow> Some (r, a1)
      | (Inl (GitCommandError m), a1) \<Rightarrow>
          if head_issue m
          then (case create_initial_commit w (a1\<lparr> is_empty_repo := True \<rparr>) of
                  (created, a2) \<Rightarrow>
                    if created then commit_and_push w commit_message files a2
                    else Some ((False, ''Failed to create initial commit''), a2))
          else Some ((False, m), a1)
      | (Inl (OtherException m), a1) \<Rightarrow> Some ((False, m), a1))"

section \<open>The scheduled-commit loop (main.py)\<close>

text \<open>
  What one pass of the \<^verbatim>\<open>while\<close> loop of \<^verbatim>\<open>run_scheduled_commits\<close> meets
  from outside: whether a signal handler has cleared \<^verbatim>\<open>self.running\<close> since the
  last test, the clock readings, the random generator, whether the sleep inside the
  wait is cancelled, what the commit cycle (\<^verbatim>\<open>github_agent.execute\<close>) does, and
  whether the pause of the exception handler is cancelled. A cycle returns its
  \<^verbatim>\<open>(success, message)\<close>, raises an \<^verbatim>\<open>Exception\<close>, or is cancelled
  (\<^verbatim>\<open>asyncio.CancelledError\<close>, which \<^verbatim>\<open>except Exception\<close> does not catch).
\<close>

datatype cycle_result = Returned bool string | Raised string | CycleCancelled

record iteration =
  signalled :: bool
  clock_test :: datetime
  clock_wait :: datetime
  wait_rng :: rng
  wait_cancelled :: bool
  cycle :: cycle_result
  pause_cancelled :: bool

text \<open>
  The state of the application in the loop: its tracker and the flag
  \<^verbatim>\<open>self.running\<close>. Beside them the model keeps a record of what the loop has
  done: the number of commit cycles it has started and the pauses
  (\<^verbatim>\<open>asyncio.sleep(5)\<close>) its exception handler has taken. After a cycle has returned,
  the loop marks it completed; the progress it then logs reads the tracker only.
\<close>

record app =
  scheduler :: scheduler_manager
  running :: bool
  cycles_run :: nat
  pauses :: "seconds list"

text \<open>How the loop ends: its test fails, one of its two \<^verbatim>\<open>break\<close>s is taken, or a
  cancellation during the handler's pause leaves the function.\<close>

datatype loop_end = TestFailed | NoMoreCommits | Cancelled | CancelledInPause

datatype body_result = Continue | Break loop_end

text \<open>The handler \<^verbatim>\<open>except Exception\<close>: a pause of five seconds, then the next pass.\<close>

definition on_exception :: "iteration \<Rightarrow> app \<Rightarrow> body_result \<times> app" where
  "on_exception it a =
     (if pause_cancelled it then (Break CancelledInPause, a)
      else (Continue, a\<lparr> pauses := pauses a @ [5] \<rparr>))"

definition loop_body :: "iteration \<Rightarrow> app \<Rightarrow> body_result \<times> app" where
  "loop_body it a =
     (case wait_for_next_commit (scheduler a) (clock_wait it) (wait_rng it) of
        Inl e \<Rightarrow> on_exception it a
      | Inr (commit_time, slept) \<Rightarrow>
          if slept \<noteq> None \<and> wait_cancelled it then (Break Cancelled, a)
          else (case commit_time of
                  None \<Rightarrow> (Break NoMoreCommits, a)
                | Some t \<Rightarrow>
                    let a1 = a\<lparr> cycles_run := Suc (cycles_run a) \<rparr> in
                    (case cycle it of
                       CycleCancelled \<Rightarrow> (Break Cancelled, a1)
                     | Raised msg \<Rightarrow> on_exception it a1
                     | Returned success message \<Rightarrow>
                         (Continue,
                          a1\<lparr> scheduler := mark_commit_completed (scheduler a1) success \<rparr>))))"

text \<open>
  The loop over the passes that the environment supplies. \<open>None\<close> as the end means
  that the loop is still running when these passes are used up.
\<close>

fun scheduled_loop :: "iteration list \<Rightarrow> app \<Rightarrow> loop_end option \<times> app" where
  "scheduled_loop [] a = (None, a)"
| "scheduled_loop (it # its) a =
     (let a0 = (if signalled it then a\<lparr> running := False \<rparr> else a) in
      if running a0 \<and> \<not> should_stop (scheduler a0) (clock_test it)
      then (case loop_body it a0 of
              (Continue, a1) \<Rightarrow> scheduled_loop its a1
            | (Break r, a1) \<Rightarrow> (Some r, a1))
      else (Some TestFailed, a0))"

section \<open>Predicates used in the statements\<close>

text \<open>
  What the walk keeps true: at most the target count of times collected, the walking
  time not before the start, and every collected time inside \<open>[start, end)\<close>.
\<close>

definition walk_inv :: "int \<Rightarrow> datetime \<Rightarrow> datetime \<Rightarrow> walk_state \<Rightarrow> bool" where
  "walk_inv n s e st \<longleftrightarrow>
     int (length (fst st)) \<le> n \<and> s \<le> fst (snd st) \<and> (\<forall>t \<in> set (fst st). s \<le> t \<and> t < e)"

text \<open>The draw that the jitter loop makes for the entry at position \<open>i\<close>.\<close>

definition jitter_at :: "rng \<Rightarrow> nat \<Rightarrow> seconds" where
  "jitter_at g i = fst (random_uniform (- 120) 120 (fst g, snd g + i))"

text \<open>The operation is a call of \<^verbatim>\<open>mark_commit_completed\<close>.\<close>

fun is_mark :: "tracker_op \<Rightarrow> bool" where
  "is_mark (MarkCommitCompleted success) = True"
| "is_mark other = False"

text \<open>The invariant of the tracker: \<open>0 \<le> cursor \<le> length schedule\<close>.\<close>

definition cursor_in_range :: "scheduler_manager \<Rightarrow> bool" where
  "cursor_in_range sm \<longleftrightarrow>
     0 \<le> next_commit_idx sm \<and> next_commit_idx sm \<le> int (length (schedule sm))"

text \<open>What a run keeps true: the cursor is in range, and strictly inside while a mark is owed.\<close>

definition protocol_inv :: "scheduler_manager \<times> bool \<Rightarrow> bool" where
  "protocol_inv st \<longleftrightarrow>
     cursor_in_range (fst st)
     \<and> (snd st \<longrightarrow> next_commit_idx (fst st) < int (length (schedule (fst st))))"

text \<open>The operation creates a commit (\<^verbatim>\<open>repo.index.commit\<close>).\<close>

fun is_commit :: "git_op \<Rightarrow> bool" where
  "is_commit (IndexCommit m) = True"
| "is_commit other = False"

text \<open>The number of initial commits in a history.\<close>

definition bootstraps :: "github_agent \<Rightarrow> nat" where
  "bootstraps a = length (filter (\<lambda>m. m = initial_commit_message) (commits a))"

text \<open>A pass that nothing from outside ends: no signal, no cancellation, and the
  window still open at the loop test.\<close>

definition undisturbed :: "datetime \<Rightarrow> iteration \<Rightarrow> bool" where
  "undisturbed window_start it \<longleftrightarrow>
     \<not> signalled it \<and> \<not> wait_cancelled it \<and> \<not> pause_cancelled it
     \<and> cycle it \<noteq> CycleCancelled
     \<and> clock_test it < window_start + timedelta_hours COMMIT_WINDOW_HOURS"

text \<open>The cycle raised an exception; the cycle returned its pair.\<close>

fun is_raised :: "cycle_result \<Rightarrow> bool" where
  "is_raised (Raised msg) = True"
| "is_raised other = False"

fun is_returned :: "cycle_result \<Rightarrow> bool" where
  "is_returned (Returned success message) = True"
| "is_returned other = False"

section \<open>Concrete configurations, trackers and repositories\<close>

text \<open>
  The inputs at which the theorems below are applied: generator configurations, random
  streams, tracker states, and repositories (worlds) with the agent states they lead to.
\<close>

text \<open>The configuration of the settings file, with and without \<open>randomize\<close>.\<close>

definition default_generator :: commit_pattern_generator where
  "default_generator = \<lparr> min_commits = 20, max_commits = 30, window_hours = 8, randomize = True \<rparr>"




text \<open>
  A configuration with a target count of exactly 2, and a random stream for it: every
  output is 0 (so the clustering coin falls below 0.2 and the cluster gap is 60
  seconds) but the two that the jitter loop reads, which are \<open>7/8\<close> and \<open>1/2\<close> of the
  range (a jitter of \<open>+90\<close> and of \<open>0\<close> seconds).
\<close>

definition two_commits :: commit_pattern_generator where
  "two_commits = \<lparr> min_commits = 2, max_commits = 2, window_hours = 8, randomize = True \<rparr>"

definition late_then_level :: "nat \<Rightarrow> nat" where
  "late_then_level i = (if i = 7 then 7 * 2 ^ 50 else if i = 8 then 2 ^ 52 else 0)"

text \<open>
  Trackers over the schedule \<open>[10, 20, 30]\<close> of a window that started at time 0: one
  that has used up its schedule, and one that has completed the first entry. The
  operations of \<open>window_ops\<close> take the second one to the end of its schedule.
\<close>

definition one_commit :: commit_pattern_generator where
  "one_commit = \<lparr> min_commits = 1, max_commits = 1, window_hours = 8, randomize = True \<rparr>"

definition used_tracker :: scheduler_manager where
  "used_tracker = \<lparr> pattern_generator = one_commit, schedule = [10, 20, 30], next_commit_idx = 3,
      is_running = False, start_time = Some 0, total_commits = 3, successful_commits = 2 \<rparr>"

definition waiting_tracker :: scheduler_manager where
  "waiting_tracker = \<lparr> pattern_generator = one_commit, schedule = [10, 20, 30], next_commit_idx = 1,
      is_running = False, start_time = Some 0, total_commits = 1, successful_commits = 1 \<rparr>"

definition window_ops :: "tracker_op list" where
  "window_ops =
     [WaitForNextCommit 25 (\<lambda>i. 0, 0), MarkCommitCompleted True, GetScheduleProgress 26,
      WaitForNextCommit 26 (\<lambda>i. 0, 0), MarkCommitCompleted False,
      WaitForNextCommit 40 (\<lambda>i. 0, 0), ShouldStop 41]"

definition marked_once :: scheduler_manager where
  "marked_once = mark_commit_completed waiting_tracker True"

definition marked_twice :: scheduler_manager where
  "marked_twice = mark_commit_completed marked_once False"

text \<open>
  An agent on a repository believed non-empty, before any operation, and a repository
  on which every operation succeeds with empty output (a clean working tree).
\<close>

definition fresh_agent :: github_agent where
  "fresh_agent = \<lparr> is_empty_repo = False, initial_commit_done = False, has_remotes = True,
      commits = [], calls = [] \<rparr>"

definition clean_world :: world where
  "clean_world k = Inr ''''"

definition head_message :: string where
  "head_message = ''fatal: ref HEAD did not resolve to an object''"

text \<open>
  A repository on which the first \<open>n\<close> commits of \<^verbatim>\<open>commit_and_push\<close> fail on
  \<open>HEAD\<close> while every initial commit goes through: each round is six operations
  (stage, status, the failing commit, then README, stage and the initial commit).
  After these rounds the working tree is clean.
\<close>

definition head_fails :: "nat \<Rightarrow> world" where
  "head_fails n k =
     (if k < 6 * n
      then (if k mod 6 = 1 then Inr ''?? a.txt''
            else if k mod 6 = 2 then Inl (GitCommandError head_message)
            else Inr '''')
      else Inr '''')"

text \<open>The agent after the first failed attempt on \<open>head_fails 1\<close>, and after the
  initial commit that follows it.\<close>

definition after_first_try :: github_agent where
  "after_first_try =
     fresh_agent\<lparr> calls := [GitAddAll, GitStatusPorcelain, IndexCommit ''Add article''] \<rparr>"

definition after_bootstrap :: github_agent where
  "after_bootstrap =
     fresh_agent\<lparr> calls := [GitAddAll, GitStatusPorcelain, IndexCommit ''Add article'',
                              WriteReadme, GitAddAll, IndexCommit initial_commit_message],
                   commits := [initial_commit_message],
                   is_empty_repo := False, initial_commit_done := True \<rparr>"

text \<open>
  The application at the start of its loop, a pass whose cycle returns a failure, and a
  pass whose cycle raises an exception.
\<close>

definition started_app :: app where
  "started_app = \<lparr> scheduler = waiting_tracker, running = True, cycles_run = 0, pauses = [] \<rparr>"

definition failing_pass :: iteration where
  "failing_pass = \<lparr> signalled = False, clock_test = 24, clock_wait = 25, wait_rng = (\<lambda>i. 0, 0),
      wait_cancelled = False, cycle = Returned False ''No changes to commit'',
      pause_cancelled = False \<rparr>"

definition raising_pass :: iteration where
  "raising_pass = \<lparr> signalled = False, clock_test = 26, clock_wait = 27, wait_rng = (\<lambda>i. 0, 0),
      wait_cancelled = False, cycle = Raised ''disk full'',
      pause_cancelled = False \<rparr>"

section \<open>Properties of the pattern generator\<close>

text \<open>
  The two loops are unfolded by hand, one pass at a time, in the proofs below.
\<close>

declare walk.simps [simp del] fill_remaining.simps [simp del]

text \<open>
  Rounding to whole microseconds: a whole number of seconds is kept, the result is
  within half a microsecond of the argument, and bounds by whole seconds are kept.
\<close>

lemma round_half_even_of_int [simp]: "round_half_even (of_int n) = n"
  by (simp add: round_half_even_def)

lemma round_half_even_floor:
  "\<lfloor>x\<rfloor> \<le> round_half_even x \<and> round_half_even x \<le> \<lfloor>x\<rfloor> + 1"
  by (simp add: round_half_even_def Let_def)


lemma round_half_even_nonneg: "0 \<le> x \<Longrightarrow> 0 \<le> round_half_even x"
proof -
  assume "0 \<le> x"
  then have "0 \<le> \<lfloor>x\<rfloor>" by simp
  then show ?thesis using round_half_even_floor [of x] by linarith
qed

lemma round_half_even_le: "x \<le> of_int n \<Longrightarrow> round_half_even x \<le> n"
proof -
  assume a: "x \<le> of_int n"
  show ?thesis
  proof (cases "x = of_int n")
    case True
    then show ?thesis by simp
  next
    case False
    with a have "x < of_int n" by simp
    then have "\<lfloor>x\<rfloor> < n" by (simp add: floor_less_iff)
    then show ?thesis using round_half_even_floor [of x] by linarith
  qed
qed

lemma timedelta_seconds_nonneg: "0 \<le> x \<Longrightarrow> 0 \<le> timedelta_seconds x"
  by (simp add: timedelta_seconds_def round_half_even_nonneg)

lemma timedelta_seconds_le: "x \<le> of_int n \<Longrightarrow> timedelta_seconds x \<le> of_int n"
proof -
  assume "x \<le> of_int n"
  then have "x * 1000000 \<le> of_int (n * 1000000)" by simp
  then have "round_half_even (x * 1000000) \<le> n * 1000000" by (rule round_half_even_le)
  then have "(of_int (round_half_even (x * 1000000)) :: rat) \<le> of_int (n * 1000000)"
    by (simp only: of_int_le_iff)
  then show ?thesis by (simp add: timedelta_seconds_def)
qed


lemma timedelta_seconds_of_int [simp]: "timedelta_seconds (of_int n) = of_int n"
proof -
  have "round_half_even (of_int n * 1000000) = n * 1000000"
    using round_half_even_of_int [of "n * 1000000"] by simp
  then show ?thesis by (simp add: timedelta_seconds_def)
qed

lemma timedelta_seconds_numeral [simp]:
  "timedelta_seconds (numeral k) = numeral k" "timedelta_seconds (- numeral k) = - numeral k"
  "timedelta_seconds 0 = 0" "timedelta_seconds 1 = 1"
  using timedelta_seconds_of_int [of "numeral k"] timedelta_seconds_of_int [of "- numeral k"] timedelta_seconds_of_int [of 0] timedelta_seconds_of_int [of 1]
  by simp_all


lemma random_random_range: "0 \<le> fst (random_random g) \<and> fst (random_random g) < 1"
proof -
  obtain bits pos where g: "g = (bits, pos)" by (cases g) auto
  have "bits pos mod 2 ^ 53 < (2 ^ 53 :: nat)" by simp
  then have "(of_nat (bits pos mod 2 ^ 53) :: rat) < of_nat (2 ^ 53)"
    by (simp only: of_nat_less_iff)
  then have "(of_nat (bits pos mod 2 ^ 53) :: rat) < 2 ^ 53" by simp
  then have "(of_nat (bits pos mod 2 ^ 53) :: rat) / 2 ^ 53 < 1" by simp
  moreover have "0 \<le> (of_nat (bits pos mod 2 ^ 53) :: rat) / 2 ^ 53" by simp
  ultimately show ?thesis by (simp add: random_random_def g)
qed

lemma random_random_rng: "snd (random_random g) = (fst g, Suc (snd g))"
  by (cases g) (simp add: random_random_def)

lemma random_uniform_rng: "snd (random_uniform a b g) = (fst g, Suc (snd g))"
  using random_random_rng [of g]
  by (cases "random_random g") (simp add: random_uniform_def)

lemma random_uniform_range:
  assumes "a \<le> b"
  shows "a \<le> fst (random_uniform a b g) \<and> fst (random_uniform a b g) \<le> b"
proof -
  obtain r g' where r: "random_random g = (r, g')" by (cases "random_random g") auto
  have r0: "0 \<le> r" and r1: "r < 1" using random_random_range [of g] by (simp_all add: r)
  have d: "0 \<le> b - a" using assms by simp
  have "0 \<le> (b - a) * r" using d r0 by (rule mult_nonneg_nonneg)
  moreover have "(b - a) * r \<le> (b - a) * 1"
    using d r1 by (intro mult_left_mono) simp_all
  ultimately show ?thesis by (simp add: random_uniform_def r)
qed

lemma cluster_inv: "walk_inv n s e st \<Longrightarrow> walk_inv n s e (cluster k n e st)"
proof (induction k arbitrary: st)
  case 0
  then show ?case by simp
next
  case (Suc k)
  obtain cts cur g where st: "st = (cts, cur, g)" by (cases st) auto
  show ?case
  proof (cases "int (length cts) \<ge> n \<or> cur \<ge> e")
    case True
    then show ?thesis using Suc.prems by (simp add: st)
  next
    case False
    obtain gap g' where u: "random_uniform 60 300 g = (gap, g')"
      by (cases "random_uniform 60 300 g") auto
    have "60 \<le> gap" using random_uniform_range [of 60 300 g] by (simp add: u)
    then have "0 \<le> timedelta_seconds gap" by (intro timedelta_seconds_nonneg) simp
    with False Suc.prems have "walk_inv n s e (cts @ [cur], cur + timedelta_seconds gap, g')"
      by (auto simp: walk_inv_def st)
    then have "walk_inv n s e (cluster k n e (cts @ [cur], cur + timedelta_seconds gap, g'))"
      by (rule Suc.IH)
    with False show ?thesis by (simp add: st u)
  qed
qed

lemma walk_step_inv:
  assumes "walk_inv n s e (cts, cur, g)" and "int (length cts) < n" and "cur < e"
  shows "walk_inv n s e (walk_step n e (cts, cur, g))"
proof -
  obtain b g1 where u1: "random_uniform 600 2700 g = (b, g1)"
    by (cases "random_uniform 600 2700 g") auto
  obtain f g2 where u2: "random_uniform (7 / 10) (13 / 10) g1 = (f, g2)"
    by (cases "random_uniform (7 / 10) (13 / 10) g1") auto
  obtain c g3 where u3: "random_random g2 = (c, g3)"
    by (cases "random_random g2") auto
  obtain k g4 where u4: "randint_draw 2 4 g3 = (k, g4)"
    by (cases "randint_draw 2 4 g3") auto
  have "600 \<le> b" using random_uniform_range [of 600 2700 g] by (simp add: u1)
  moreover have "7 / 10 \<le> f" using random_uniform_range [of "7 / 10" "13 / 10" g1] by (simp add: u2)
  ultimately have bf: "0 \<le> b * f" by (intro mult_nonneg_nonneg) simp_all
  show ?thesis
  proof (cases "c < 1 / 5")
    case True
    have "walk_inv n s e (cts, cur, g4)" using assms(1) by (simp add: walk_inv_def)
    then have "walk_inv n s e (cluster (nat k) n e (cts, cur, g4))" by (rule cluster_inv)
    then show ?thesis using True by (simp add: walk_step_def u1 u2 u3 u4)
  next
    case False
    have "0 \<le> timedelta_seconds (b * f)" using bf by (rule timedelta_seconds_nonneg)
    then have "walk_inv n s e (cts @ [cur], cur + timedelta_seconds (b * f), g3)"
      using assms by (auto simp: walk_inv_def)
    then show ?thesis using False by (simp add: walk_step_def u1 u2 u3)
  qed
qed

lemma walk_inv_preserved: "walk_inv n s e st \<Longrightarrow> walk_inv n s e (walk n e st)"
proof (induction n e st rule: walk.induct)
  case (1 n e cts cur g)
  show ?case
  proof (cases "int (length cts) < n \<and> cur < e")
    case True
    then have "walk_inv n s e (walk_step n e (cts, cur, g))"
      using "1.prems" by (simp add: walk_step_inv)
    then have "walk_inv n s e (walk n e (walk_step n e (cts, cur, g)))"
      using True by (rule "1.IH" [rotated])
    moreover have "walk n e (cts, cur, g) = walk n e (walk_step n e (cts, cur, g))"
      using True by (subst walk.simps) simp
    ultimately show ?thesis by simp
  next
    case False
    then have "walk n e (cts, cur, g) = (cts, cur, g)"
      by (subst walk.simps) auto
    then show ?thesis using "1.prems" by simp
  qed
qed

lemma fill_remaining_props:
  assumes "0 \<le> h" and "int (length cts) \<le> n" and "\<forall>t \<in> set cts. s \<le> t \<and> t \<le> s + timedelta_hours h"
  shows "int (length (fst (fill_remaining n s h (cts, g)))) = n
       \<and> (\<forall>t \<in> set (fst (fill_remaining n s h (cts, g))). s \<le> t \<and> t \<le> s + timedelta_hours h)"
  using assms
proof (induction n s h "(cts, g)" arbitrary: cts g rule: fill_remaining.induct)
  case (1 n s h cts g)
  show ?case
  proof (cases "int (length cts) < n")
    case True
    obtain x g' where u: "random_uniform 0 (of_int (h * 3600)) g = (x, g')"
      by (cases "random_uniform 0 (of_int (h * 3600)) g") auto
    have "(0::rat) \<le> of_int (h * 3600)" using "1.prems"(1) by simp
    then have "0 \<le> fst (random_uniform 0 (of_int (h * 3600)) g)
        \<and> fst (random_uniform 0 (of_int (h * 3600)) g) \<le> of_int (h * 3600)"
      by (rule random_uniform_range)
    then have x: "0 \<le> x \<and> x \<le> of_int (h * 3600)"
      by (simp only: u fst_conv)
    have "int (length (fst (fill_remaining n s h (cts @ [s + timedelta_seconds x], g')))) = n
       \<and> (\<forall>t \<in> set (fst (fill_remaining n s h (cts @ [s + timedelta_seconds x], g'))).
             s \<le> t \<and> t \<le> s + timedelta_hours h)"
    proof (rule "1.hyps" [OF True u [symmetric] "1.prems"(1)])
      show "int (length (cts @ [s + timedelta_seconds x])) \<le> n" using True by simp
      have "0 \<le> timedelta_seconds x" using x by (intro timedelta_seconds_nonneg) simp
      moreover have "timedelta_seconds x \<le> of_int (h * 3600)"
        using x by (intro timedelta_seconds_le) simp
      ultimately show
        "\<forall>t\<in>set (cts @ [s + timedelta_seconds x]). s \<le> t \<and> t \<le> s + timedelta_hours h"
        using "1.prems"(3) by (auto simp: timedelta_hours_def)
    qed
    moreover have "fill_remaining n s h (cts, g)
        = fill_remaining n s h (cts @ [s + timedelta_seconds x], g')"
      using True by (subst fill_remaining.simps) (simp only: u if_True prod.case)
    ultimately show ?thesis by simp
  next
    case False
    then have "fill_remaining n s h (cts, g) = (cts, g)"
      by (subst fill_remaining.simps) simp
    then show ?thesis using False "1.prems" by simp
  qed
qed

lemma collect_commit_times_props:
  assumes "0 \<le> window_hours c" and "0 \<le> n"
  shows "int (length (fst (collect_commit_times c s n g))) = n
       \<and> (\<forall>t \<in> set (fst (collect_commit_times c s n g)).
             s \<le> t \<and> t \<le> s + timedelta_hours (window_hours c))"
proof -
  define e where "e = s + timedelta_hours (window_hours c)"
  obtain cts cur g1 where w: "walk n e ([], s, g) = (cts, cur, g1)"
    by (cases "walk n e ([], s, g)") auto
  have "walk_inv n s e ([], s, g)" using assms(2) by (simp add: walk_inv_def)
  then have "walk_inv n s e (walk n e ([], s, g))" by (rule walk_inv_preserved)
  then have len: "int (length cts) \<le> n" and els: "\<forall>t \<in> set cts. s \<le> t \<and> t \<le> e"
    by (auto simp: walk_inv_def w)
  show ?thesis
  proof (cases "int (length cts) < n")
    case True
    have "collect_commit_times c s n g = fill_remaining n s (window_hours c) (cts, g1)"
      using True by (simp add: collect_commit_times_def e_def [symmetric] w)
    moreover have "int (length (fst (fill_remaining n s (window_hours c) (cts, g1)))) = n
       \<and> (\<forall>t \<in> set (fst (fill_remaining n s (window_hours c) (cts, g1))).
             s \<le> t \<and> t \<le> s + timedelta_hours (window_hours c))"
      using assms(1) len els unfolding e_def by (rule fill_remaining_props)
    ultimately show ?thesis by simp
  next
    case False
    with len have "int (length cts) = n" by simp
    then have "collect_commit_times c s n g = (cts, g1)"
      by (simp add: collect_commit_times_def e_def [symmetric] w)
    then show ?thesis using \<open>int (length cts) = n\<close> els by (simp add: e_def)
  qed
qed

lemma add_jitter_length: "length (add_jitter s e ts g) = length ts"
  by (induction ts arbitrary: g) (auto split: prod.splits simp: Let_def)

lemma add_jitter_window:
  "\<forall>t \<in> set ts. s \<le> t \<and> t \<le> e \<Longrightarrow> \<forall>t \<in> set (add_jitter s e ts g). s \<le> t \<and> t \<le> e"
  by (induction ts arbitrary: g) (auto split: prod.splits simp: Let_def)

lemma add_jitter_nth:
  "i < length ts \<Longrightarrow>
     add_jitter s e ts g ! i =
       (let jittered_time = ts ! i + timedelta_seconds (jitter_at g i)
        in if s \<le> jittered_time \<and> jittered_time \<le> e then jittered_time else ts ! i)"
proof (induction ts arbitrary: g i)
  case Nil
  then show ?case by simp
next
  case (Cons t ts)
  obtain j g' where u: "random_uniform (- 120) 120 g = (j, g')"
    by (cases "random_uniform (- 120) 120 g") auto
  have g': "g' = (fst g, Suc (snd g))" using random_uniform_rng [of "- 120" 120 g] by (simp add: u)
  show ?case
  proof (cases i)
    case 0
    then show ?thesis by (simp add: u jitter_at_def Let_def)
  next
    case (Suc k)
    then have "k < length ts" using Cons.prems by simp
    then have "add_jitter s e ts g' ! k =
       (let jittered_time = ts ! k + timedelta_seconds (jitter_at g' k)
        in if s \<le> jittered_time \<and> jittered_time \<le> e then jittered_time else ts ! k)"
      by (rule Cons.IH)
    moreover have "jitter_at g' k = jitter_at g (Suc k)" by (simp add: jitter_at_def g')
    ultimately show ?thesis by (simp add: u Suc Let_def)
  qed
qed

lemma jitter_at_range: "- 120 \<le> jitter_at g i \<and> jitter_at g i \<le> 120"
  unfolding jitter_at_def by (rule random_uniform_range) simp

lemma sorted_commit_times_sorted: "sorted (fst (sorted_commit_times c s n g))"
  by (cases "collect_commit_times c s n g") (simp add: sorted_commit_times_def)

text \<open>
  C4. With \<open>randomize\<close> set, counts \<open>0 \<le> min_commits \<le> max_commits\<close> and a window of
  non-negative length, \<open>generate_commit_schedule\<close> returns a list whose length is the
  drawn target count, between \<open>min_commits\<close> and \<open>max_commits\<close>, and every entry
  lies in \<open>[start, start + window]\<close>. Entry \<open>i\<close> is the sorted entry \<open>i\<close> plus its
  own jitter when that sum is inside the window, and the sorted entry itself otherwise:
  a jitter that would leave the window is dropped.
\<close>

theorem generate_commit_schedule_random_bounds:
  assumes "randomize c"
    and "0 \<le> min_commits c" and "min_commits c \<le> max_commits c"
    and "0 \<le> window_hours c"
  shows "\<exists>ts num g1 pre g2.
           generate_commit_schedule c start g = Inr ts
         \<and> random_randint (min_commits c) (max_commits c) g = Inr (num, g1)
         \<and> sorted_commit_times c start num g1 = (pre, g2)
         \<and> min_commits c \<le> num \<and> num \<le> max_commits c
         \<and> int (length ts) = num
         \<and> list_all (\<lambda>t. start \<le> t \<and> t \<le> start + timedelta_hours (window_hours c)) ts
         \<and> length pre = length ts
         \<and> list_all (\<lambda>i. ts ! i =
               (let jittered_time = pre ! i + timedelta_seconds (jitter_at g2 i)
                in if start \<le> jittered_time
                      \<and> jittered_time \<le> start + timedelta_hours (window_hours c)
                   then jittered_time else pre ! i)) [0 ..< length ts]"
proof -
  define e where "e = start + timedelta_hours (window_hours c)"
  obtain num g1 where d: "randint_draw (min_commits c) (max_commits c) g = (num, g1)"
    by (cases "randint_draw (min_commits c) (max_commits c) g") auto
  have ri: "random_randint (min_commits c) (max_commits c) g = Inr (num, g1)"
    using assms(3) by (simp add: random_randint_def d)
  have num: "min_commits c \<le> num \<and> num \<le> max_commits c"
    using randint_draw_range [OF assms(3), of g] by (simp add: d)
  then have num0: "0 \<le> num" using assms(2) by simp
  obtain cts g2' where col: "collect_commit_times c start num g1 = (cts, g2')"
    by (cases "collect_commit_times c start num g1") auto
  have cp: "int (length cts) = num \<and> (\<forall>t \<in> set cts. start \<le> t \<and> t \<le> e)"
    using collect_commit_times_props [OF assms(4) num0, of start g1] by (simp add: col e_def)
  define pre where "pre = sort cts"
  have sct: "sorted_commit_times c start num g1 = (pre, g2')"
    by (simp add: sorted_commit_times_def col pre_def)
  have pre_len: "int (length pre) = num" using cp by (simp add: pre_def)
  have pre_win: "\<forall>t \<in> set pre. start \<le> t \<and> t \<le> e" using cp by (simp add: pre_def)
  define ts where "ts = add_jitter start e pre g2'"
  have gen: "generate_commit_schedule c start g = Inr ts"
    using assms(1) by (simp add: generate_commit_schedule_def ri sct ts_def e_def Let_def)
  have len: "length ts = length pre" by (simp add: ts_def add_jitter_length)
  have win: "list_all (\<lambda>t. start \<le> t \<and> t \<le> e) ts"
    using add_jitter_window [OF pre_win, of g2'] by (simp add: ts_def list_all_iff)
  have nth: "list_all (\<lambda>i. ts ! i =
               (let jittered_time = pre ! i + timedelta_seconds (jitter_at g2' i)
                in if start \<le> jittered_time \<and> jittered_time \<le> e
                   then jittered_time else pre ! i)) [0 ..< length ts]"
    unfolding list_all_iff ts_def
    by (auto simp: add_jitter_length intro!: add_jitter_nth)
  have len': "int (length ts) = num" and len'': "length pre = length ts"
    using len pre_len by simp_all
  show ?thesis
    using gen ri sct num len' win len'' nth unfolding e_def by blast
qed

theorem generate_commit_schedule_random_bounds_witness:
  "randomize default_generator
   \<and> 0 \<le> min_commits default_generator
   \<and> min_commits default_generator \<le> max_commits default_generator
   \<and> 0 \<le> window_hours default_generator
   \<and> (\<exists>ts num. generate_commit_schedule default_generator 1000 (\<lambda>i. 3 * i, 0) = Inr ts
         \<and> 20 \<le> num \<and> num \<le> 30 \<and> int (length ts) = num
         \<and> list_all (\<lambda>t. 1000 \<le> t \<and> t \<le> 29800) ts)"
proof -
  have h: "randomize default_generator" "0 \<le> min_commits default_generator"
    "min_commits default_generator \<le> max_commits default_generator"
    "0 \<le> window_hours default_generator"
    by (simp_all add: default_generator_def)
  have w: "1000 + timedelta_hours (window_hours default_generator) = 29800"
    by (simp add: default_generator_def timedelta_hours_def)
  have m: "min_commits default_generator = 20" "max_commits default_generator = 30"
    by (simp_all add: default_generator_def)
  show ?thesis
    using h generate_commit_schedule_random_bounds [OF h, of 1000 "(\<lambda>i. 3 * i, 0)"]
    unfolding w m by blast
qed

lemma random_random_at: "random_random (bits, n) = (of_nat (bits n mod 2 ^ 53) / 2 ^ 53, (bits, Suc n))"
  by (simp add: random_random_def)

lemma random_uniform_at:
  "random_uniform a b (bits, n) = (a + (b - a) * (of_nat (bits n mod 2 ^ 53) / 2 ^ 53), (bits, Suc n))"
  by (simp add: random_uniform_def random_random_def)

lemma randint_draw_at:
  "randint_draw a b (bits, n) = (a + int (bits n) mod (b - a + 1), (bits, Suc n))"
  by (simp add: randint_draw_def)

lemma walk_step_two_commits: "walk_step 2 28800 ([], 0, (late_then_level, Suc 0)) = ([0, 60], 120, (late_then_level, 7))"
  by (simp add: walk_step_def random_uniform_at random_random_at randint_draw_at
        late_then_level_def numeral_2_eq_2)

lemma walk_two_commits: "walk 2 28800 ([], 0, (late_then_level, Suc 0)) = ([0, 60], 120, (late_then_level, 7))"
  by (subst walk.simps, simp add: walk_step_two_commits, subst walk.simps, simp)

lemma sorted_commit_times_two_commits: "sorted_commit_times two_commits 0 2 (late_then_level, Suc 0) = ([0, 60], (late_then_level, 7))"
  by (simp add: sorted_commit_times_def collect_commit_times_def two_commits_def
        timedelta_hours_def walk_two_commits)

lemma add_jitter_two_commits: "add_jitter 0 28800 [0, 60] (late_then_level, 7) = [90, 60]"
  by (simp add: random_uniform_at late_then_level_def)

text \<open>
  C2. The list is sorted before the jitter loop and is not sorted again after it, so
  two neighbouring times can change places. Here the target count is 2, the walk
  starts at time 0 and yields the cluster \<open>[0, 60]\<close>, which is sorted; the first time
  draws a jitter of \<open>+90\<close> seconds and the second a jitter of \<open>0\<close>. The result
  \<open>[90, 60]\<close> is not sorted ascending.
\<close>

theorem generate_commit_schedule_not_sorted:
  "generate_commit_schedule two_commits 0 (late_then_level, 0) = Inr [90, 60]
   \<and> \<not> sorted [90, 60 :: datetime]
   \<and> fst (sorted_commit_times two_commits 0 2 (late_then_level, Suc 0)) = [0, 60]"
proof -
  have "random_randint 2 2 (late_then_level, 0) = Inr (2, (late_then_level, Suc 0))"
    by (simp add: random_randint_def randint_draw_at)
  then show ?thesis
    using sorted_commit_times_two_commits add_jitter_two_commits
    by (simp add: generate_commit_schedule_def two_commits_def timedelta_hours_def)
qed








section \<open>Properties of the schedule tracker\<close>

lemma generate_new_schedule_fields:
  assumes "generate_new_schedule sm start_from now g = Inr (sched, sm')"
  shows "generate_commit_schedule (pattern_generator sm)
           (case start_from of Some t \<Rightarrow> t | None \<Rightarrow> now) g = Inr sched
       \<and> schedule sm' = sched \<and> next_commit_idx sm' = 0
       \<and> start_time sm' = Some (case start_from of Some t \<Rightarrow> t | None \<Rightarrow> now)
       \<and> total_commits sm' = total_commits sm
       \<and> successful_commits sm' = successful_commits sm
       \<and> pattern_generator sm' = pattern_generator sm
       \<and> is_running sm' = is_running sm"
  using assms
  by (auto simp: generate_new_schedule_def Let_def split: sum.splits)

lemma walk_step_one_commit:
  "walk_step 1 28900 ([], 100, (\<lambda>i. 0, Suc 0)) = ([100], 160, (\<lambda>i. 0, 6))"
  by (simp add: walk_step_def random_uniform_at random_random_at randint_draw_at
        numeral_2_eq_2)

lemma walk_one_commit:
  "walk 1 28900 ([], 100, (\<lambda>i. 0, Suc 0)) = ([100], 160, (\<lambda>i. 0, 6))"
  by (subst walk.simps, simp add: walk_step_one_commit, subst walk.simps, simp)

lemma generate_one_commit:
  "generate_commit_schedule one_commit 100 (\<lambda>i. 0, 0) = Inr [100]"
proof -
  have "random_randint 1 1 (\<lambda>i. 0, 0) = Inr (1, (\<lambda>i. 0, Suc 0))"
    by (simp add: random_randint_def randint_draw_at)
  moreover have "sorted_commit_times one_commit 100 1 (\<lambda>i. 0, Suc 0) = ([100], (\<lambda>i. 0, 6))"
    using walk_one_commit
    by (simp add: sorted_commit_times_def collect_commit_times_def one_commit_def
        timedelta_hours_def)
  moreover have "add_jitter 100 28900 [100] (\<lambda>i. 0, 6) = [100]"
    by (simp add: random_uniform_at)
  ultimately show ?thesis
    by (simp add: generate_commit_schedule_def one_commit_def timedelta_hours_def)
qed

text \<open>
  C3 as stated fails on the counters. A tracker that has counted three attempts, two of
  them successful, gets a new schedule: the schedule is replaced, the cursor is 0 and
  the start is recorded, and the counters are still 3 and 2.
\<close>

theorem generate_new_schedule_keeps_counters:
  "generate_new_schedule used_tracker (Some 100) 0 (\<lambda>i. 0, 0)
     = Inr ([100], used_tracker\<lparr> schedule := [100], next_commit_idx := 0, start_time := Some 100 \<rparr>)
   \<and> total_commits (used_tracker\<lparr> schedule := [100], next_commit_idx := 0, start_time := Some 100 \<rparr>) = 3
   \<and> successful_commits (used_tracker\<lparr> schedule := [100], next_commit_idx := 0, start_time := Some 100 \<rparr>) = 2"
  using generate_one_commit
  by (simp add: generate_new_schedule_def used_tracker_def)

lemma generate_commit_schedule_random_returns:
  assumes "randomize c" and "min_commits c \<le> max_commits c"
  shows "\<exists>ts. generate_commit_schedule c start g = Inr ts"
  using assms
  by (simp add: generate_commit_schedule_def random_randint_def Let_def split: prod.splits)

text \<open>
  C3, amended. For every tracker state (with \<open>randomize\<close> set and
  \<open>min_commits \<le> max_commits\<close>, so that the generator returns),
  \<open>generate_new_schedule\<close> installs the freshly generated schedule in place of any
  earlier one, sets the cursor to 0 and records the window start. It leaves
  \<open>total_commits\<close> and \<open>successful_commits\<close> as they were.
\<close>

theorem generate_new_schedule_installs:
  assumes "randomize (pattern_generator sm)"
    and "min_commits (pattern_generator sm) \<le> max_commits (pattern_generator sm)"
  shows "\<exists>sched sm'.
           generate_new_schedule sm start_from now g = Inr (sched, sm')
         \<and> generate_commit_schedule (pattern_generator sm)
              (case start_from of Some t \<Rightarrow> t | None \<Rightarrow> now) g = Inr sched
         \<and> schedule sm' = sched
         \<and> next_commit_idx sm' = 0
         \<and> start_time sm' = Some (case start_from of Some t \<Rightarrow> t | None \<Rightarrow> now)
         \<and> total_commits sm' = total_commits sm
         \<and> successful_commits sm' = successful_commits sm"
proof -
  define start where "start = (case start_from of Some t \<Rightarrow> t | None \<Rightarrow> now)"
  obtain sched where g: "generate_commit_schedule (pattern_generator sm) start g = Inr sched"
    using generate_commit_schedule_random_returns [OF assms] by blast
  define sm' where "sm' = sm\<lparr> schedule := sched, next_commit_idx := 0, start_time := Some start \<rparr>"
  have "generate_new_schedule sm start_from now g = Inr (sched, sm')"
    by (simp add: generate_new_schedule_def start_def [symmetric] g sm'_def)
  moreover have "schedule sm' = sched" "next_commit_idx sm' = 0" "start_time sm' = Some start"
    "total_commits sm' = total_commits sm" "successful_commits sm' = successful_commits sm"
    by (simp_all add: sm'_def)
  ultimately show ?thesis using g unfolding start_def by blast
qed

theorem generate_new_schedule_installs_witness:
  "randomize (pattern_generator used_tracker)
   \<and> min_commits (pattern_generator used_tracker) \<le> max_commits (pattern_generator used_tracker)
   \<and> (\<exists>sched sm'. generate_new_schedule used_tracker (Some 100) 0 (\<lambda>i. 0, 0) = Inr (sched, sm')
         \<and> schedule sm' = sched \<and> next_commit_idx sm' = 0 \<and> start_time sm' = Some 100
         \<and> total_commits sm' = 3 \<and> successful_commits sm' = 2)"
proof -
  have h: "randomize (pattern_generator used_tracker)"
    "min_commits (pattern_generator used_tracker) \<le> max_commits (pattern_generator used_tracker)"
    by (simp_all add: used_tracker_def one_commit_def)
  have c: "total_commits used_tracker = 3" "successful_commits used_tracker = 2"
    by (simp_all add: used_tracker_def)
  show ?thesis
    using h generate_new_schedule_installs [OF h, of "Some 100" 0 "(\<lambda>i. 0, 0)"]
    unfolding c by auto
qed

text \<open>
  C9 as stated fails: \<open>get_schedule_progress\<close> reads the clock. With the schedule
  \<open>[10, 20, 30]\<close> and no operation on the tracker in between, a call at time 5 counts
  three upcoming entries and names 10 as the next one, and a call at time 15 counts two
  and names 20.
\<close>

theorem get_schedule_progress_clock:
  "upcoming (get_schedule_progress used_tracker 5) = 3
   \<and> upcoming (get_schedule_progress used_tracker 15) = 2
   \<and> next_commit (get_schedule_progress used_tracker 5) = Some 10
   \<and> next_commit (get_schedule_progress used_tracker 15) = Some 20
   \<and> get_schedule_progress used_tracker 5 \<noteq> get_schedule_progress used_tracker 15"
proof -
  have a: "upcoming (get_schedule_progress used_tracker 5) = 3"
    and b: "upcoming (get_schedule_progress used_tracker 15) = 2"
    and c: "next_commit (get_schedule_progress used_tracker 5) = Some 10"
    and d: "next_commit (get_schedule_progress used_tracker 15) = Some 20"
    by (simp_all add: get_schedule_progress_def Let_def used_tracker_def)
  from a b have "get_schedule_progress used_tracker 5 \<noteq> get_schedule_progress used_tracker 15"
    by auto
  with a b c d show ?thesis by simp
qed

text \<open>
  C9, amended. Two calls of \<open>get_schedule_progress\<close> on the same tracker state agree
  on \<open>total_scheduled\<close>, \<open>completed\<close>, \<open>remaining\<close>, \<open>successful\<close> and
  \<open>window_end\<close> whatever the clock shows, and return identical results when no schedule
  entry lies between the two clock readings. (The function returns the snapshot only:
  it assigns to no field of the tracker.)
\<close>

theorem get_schedule_progress_repeatable:
  "total_scheduled (get_schedule_progress sm now1) = total_scheduled (get_schedule_progress sm now2)
   \<and> completed (get_schedule_progress sm now1) = completed (get_schedule_progress sm now2)
   \<and> remaining (get_schedule_progress sm now1) = remaining (get_schedule_progress sm now2)
   \<and> successful (get_schedule_progress sm now1) = successful (get_schedule_progress sm now2)
   \<and> window_end (get_schedule_progress sm now1) = window_end (get_schedule_progress sm now2)
   \<and> (list_all (\<lambda>t. (now1 < t) = (now2 < t)) (schedule sm)
        \<longrightarrow> get_schedule_progress sm now1 = get_schedule_progress sm now2)"
proof -
  have "filter (\<lambda>t. t > now1) (schedule sm) = filter (\<lambda>t. t > now2) (schedule sm)"
    if "list_all (\<lambda>t. (now1 < t) = (now2 < t)) (schedule sm)"
    using that by (intro filter_cong) (auto simp: list_all_iff)
  then show ?thesis by (simp add: get_schedule_progress_def Let_def)
qed

theorem get_schedule_progress_repeatable_witness:
  "list_all (\<lambda>t. ((12::rat) < t) = (15 < t)) (schedule used_tracker)
   \<and> get_schedule_progress used_tracker 12 = get_schedule_progress used_tracker 15
   \<and> upcoming (get_schedule_progress used_tracker 12) = 2"
proof -
  have h: "list_all (\<lambda>t. ((12::rat) < t) = (15 < t)) (schedule used_tracker)"
    by (simp add: used_tracker_def)
  moreover have "upcoming (get_schedule_progress used_tracker 12) = 2"
    by (simp add: get_schedule_progress_def Let_def used_tracker_def)
  ultimately show ?thesis
    using get_schedule_progress_repeatable [of used_tracker 12 15] by simp
qed

lemma wait_for_next_commit_in_range:
  assumes "0 \<le> next_commit_idx sm" and "next_commit_idx sm < int (length (schedule sm))"
  shows "\<exists>slept.
           wait_for_next_commit sm now g
             = Inr (Some (schedule sm ! nat (next_commit_idx sm)), slept)
         \<and> (schedule sm ! nat (next_commit_idx sm) \<le> now \<longrightarrow> slept = None)
         \<and> (now < schedule sm ! nat (next_commit_idx sm) \<longrightarrow>
              slept = Some (max 1 (schedule sm ! nat (next_commit_idx sm) - now
                                    + fst (random_uniform (- 30) 30 g))))"
proof -
  have ix: "py_index (schedule sm) (next_commit_idx sm) = Inr (schedule sm ! nat (next_commit_idx sm))"
    using assms by (simp add: py_index_def Let_def)
  show ?thesis
  proof (cases "schedule sm ! nat (next_commit_idx sm) \<le> now")
    case True
    then show ?thesis using assms by (simp add: wait_for_next_commit_def ix)
  next
    case False
    then show ?thesis
      using assms
      by (cases "random_uniform (- 30) 30 g") (simp add: wait_for_next_commit_def ix Let_def)
  qed
qed

text \<open>
  C10. With the cursor inside the schedule, \<open>wait_for_next_commit\<close> returns the entry
  at the cursor, unchanged. When that entry is due (\<open>entry \<le> now\<close>) it does not
  sleep; otherwise it sleeps for \<open>max 1 (entry - now + jitter)\<close> seconds, the jitter
  drawn from \<open>[-30, 30)\<close>: the jitter enters the sleep only.
\<close>

theorem wait_for_next_commit_returns_entry:
  assumes "0 \<le> next_commit_idx sm" and "next_commit_idx sm < int (length (schedule sm))"
  shows "\<exists>slept.
           wait_for_next_commit sm now g
             = Inr (Some (schedule sm ! nat (next_commit_idx sm)), slept)
         \<and> (schedule sm ! nat (next_commit_idx sm) \<le> now \<longrightarrow> slept = None)
         \<and> (now < schedule sm ! nat (next_commit_idx sm) \<longrightarrow>
              slept = Some (max 1 (schedule sm ! nat (next_commit_idx sm) - now
                                    + fst (random_uniform (- 30) 30 g))))"
  using assms by (rule wait_for_next_commit_in_range)

theorem wait_for_next_commit_returns_entry_witness:
  "0 \<le> next_commit_idx waiting_tracker
   \<and> next_commit_idx waiting_tracker < int (length (schedule waiting_tracker))
   \<and> wait_for_next_commit waiting_tracker 25 (\<lambda>i. 0, 0) = Inr (Some 20, None)
   \<and> wait_for_next_commit waiting_tracker 12 (\<lambda>i. 2 ^ 52, 0) = Inr (Some 20, Some 8)
   \<and> wait_for_next_commit waiting_tracker 12 (\<lambda>i. 0, 0) = Inr (Some 20, Some 1)"
proof -
  have h: "0 \<le> next_commit_idx waiting_tracker"
    "next_commit_idx waiting_tracker < int (length (schedule waiting_tracker))"
    by (simp_all add: waiting_tracker_def)
  have e: "schedule waiting_tracker ! nat (next_commit_idx waiting_tracker) = 20"
    by (simp add: waiting_tracker_def)
  have j: "fst (random_uniform (- 30) 30 (\<lambda>i. 2 ^ 52, 0)) = 0"
    "fst (random_uniform (- 30) 30 (\<lambda>i. 0, 0)) = - 30"
    by (simp_all add: random_uniform_at)
  show ?thesis
    using h wait_for_next_commit_returns_entry [OF h, of 25 "(\<lambda>i. 0, 0)"]
      wait_for_next_commit_returns_entry [OF h, of 12 "(\<lambda>i. 2 ^ 52, 0)"]
      wait_for_next_commit_returns_entry [OF h, of 12 "(\<lambda>i. 0, 0)"]
    unfolding e j by auto
qed

lemma mark_commit_completed_fields:
  "next_commit_idx (mark_commit_completed sm b) = next_commit_idx sm + 1"
  "schedule (mark_commit_completed sm b) = schedule sm"
  "total_commits (mark_commit_completed sm b) = total_commits sm + 1"
  "successful_commits (mark_commit_completed sm b) = successful_commits sm + (if b then 1 else 0)"
  "start_time (mark_commit_completed sm b) = start_time sm"
  by (simp_all add: mark_commit_completed_def Let_def)

lemma wait_for_next_commit_Some:
  assumes "wait_for_next_commit sm now g = Inr (Some t, slept)"
  shows "next_commit_idx sm < int (length (schedule sm))"
  using assms by (auto simp: wait_for_next_commit_def split: if_splits)

lemma protocol_step_props:
  assumes "protocol_inv st" and "protocol_step op st = Some st'"
  shows "protocol_inv st'
       \<and> next_commit_idx (fst st) \<le> next_commit_idx (fst st')
       \<and> (\<not> is_mark op \<longrightarrow> fst st' = fst st)"
proof (cases st)
  case (Pair sm owed)
  show ?thesis
  proof (cases op)
    case (WaitForNextCommit now g)
    show ?thesis
    proof (cases "wait_for_next_commit sm now g")
      case (Inl e)
      then show ?thesis
        using assms by (auto simp: Pair WaitForNextCommit protocol_inv_def split: if_splits)
    next
      case (Inr r)
      obtain res slept where r: "r = (res, slept)" by (cases r) auto
      show ?thesis
      proof (cases res)
        case None
        then show ?thesis
          using assms Inr r
          by (auto simp: Pair WaitForNextCommit protocol_inv_def split: if_splits)
      next
        case (Some t)
        then have "next_commit_idx sm < int (length (schedule sm))"
          using Inr r wait_for_next_commit_Some by blast
        then show ?thesis
          using assms Inr r Some
          by (auto simp: Pair WaitForNextCommit protocol_inv_def split: if_splits)
      qed
    qed
  next
    case (MarkCommitCompleted b)
    then show ?thesis
      using assms
      by (auto simp: Pair protocol_inv_def cursor_in_range_def mark_commit_completed_fields
          split: if_splits)
  qed (use assms in \<open>auto simp: Pair\<close>)
qed

lemma protocol_run_props:
  assumes "protocol_inv st" and "protocol_run ops st = Some sts"
  shows "length sts = length ops
       \<and> list_all protocol_inv sts
       \<and> sorted (map (\<lambda>s. next_commit_idx (fst s)) (st # sts))
       \<and> list_all (\<lambda>i. \<not> is_mark (ops ! i) \<longrightarrow> fst ((st # sts) ! Suc i) = fst ((st # sts) ! i))
            [0 ..< length ops]"
  using assms
proof (induction ops arbitrary: st sts)
  case Nil
  then show ?case by simp
next
  case (Cons op ops)
  from Cons.prems(2) obtain st' sts' where
    step: "protocol_step op st = Some st'" and run: "protocol_run ops st' = Some sts'"
    and sts: "sts = st' # sts'"
    by (auto split: option.splits)
  have sp: "protocol_inv st'" "next_commit_idx (fst st) \<le> next_commit_idx (fst st')"
    "\<not> is_mark op \<longrightarrow> fst st' = fst st"
    using protocol_step_props [OF Cons.prems(1) step] by simp_all
  have ih: "length sts' = length ops" "list_all protocol_inv sts'"
    "sorted (map (\<lambda>s. next_commit_idx (fst s)) (st' # sts'))"
    "list_all (\<lambda>i. \<not> is_mark (ops ! i) \<longrightarrow> fst ((st' # sts') ! Suc i) = fst ((st' # sts') ! i))
            [0 ..< length ops]"
    using Cons.IH [OF sp(1) run] by simp_all
  have a: "length sts = length (op # ops)" using ih(1) sts by simp
  have b: "list_all protocol_inv sts" using ih(2) sp(1) sts by simp
  have c: "sorted (map (\<lambda>s. next_commit_idx (fst s)) (st # sts))"
    using ih(3) sp(2) by (simp only: sts list.map sorted2 simp_thms)
  have d: "list_all (\<lambda>i. \<not> is_mark ((op # ops) ! i) \<longrightarrow> fst ((st # sts) ! Suc i) = fst ((st # sts) ! i))
            [0 ..< length (op # ops)]"
    unfolding list_all_iff
  proof
    fix i assume "i \<in> set [0 ..< length (op # ops)]"
    then have i: "i < Suc (length ops)" by auto
    show "\<not> is_mark ((op # ops) ! i) \<longrightarrow> fst ((st # sts) ! Suc i) = fst ((st # sts) ! i)"
    proof (cases i)
      case 0
      then show ?thesis using sp(3) by (simp add: sts)
    next
      case (Suc k)
      then have "k < length ops" using i by simp
      then show ?thesis using ih(4) by (simp add: list_all_iff Suc sts)
    qed
  qed
  show ?case using a b c d by simp
qed

text \<open>
  C5. A run of tracker operations within one window that follows the calling protocol,
  started with the cursor in range, keeps \<open>0 \<le> cursor \<le> length schedule\<close> after
  every operation; the cursor never decreases along the run; and every operation other
  than \<open>mark_commit_completed\<close> leaves it as it was. (\<open>generate_new_schedule\<close>
  opens the next window and sets the cursor back to 0, see C3; it also keeps the cursor
  in range.)
\<close>

theorem tracker_cursor_invariant:
  assumes "cursor_in_range sm" and "protocol_run ops (sm, False) = Some sts"
  shows "length sts = length ops
       \<and> list_all (\<lambda>s. cursor_in_range (fst s)) sts
       \<and> sorted (map (\<lambda>s. next_commit_idx (fst s)) ((sm, False) # sts))
       \<and> list_all (\<lambda>i. \<not> is_mark (ops ! i) \<longrightarrow>
              next_commit_idx (fst (((sm, False) # sts) ! Suc i))
                = next_commit_idx (fst (((sm, False) # sts) ! i)))
            [0 ..< length ops]"
proof -
  have inv: "protocol_inv (sm, False)" using assms(1) by (simp add: protocol_inv_def)
  note p = protocol_run_props [OF inv assms(2)]
  have "list_all (\<lambda>s. cursor_in_range (fst s)) sts"
    using p by (auto simp: list_all_iff protocol_inv_def)
  moreover have "list_all (\<lambda>i. \<not> is_mark (ops ! i) \<longrightarrow>
              next_commit_idx (fst (((sm, False) # sts) ! Suc i))
                = next_commit_idx (fst (((sm, False) # sts) ! i)))
            [0 ..< length ops]"
    using p unfolding list_all_iff by simp
  ultimately show ?thesis using p by simp
qed

lemma window_ops_run:
  "protocol_run window_ops (waiting_tracker, False)
     = Some [(waiting_tracker, True), (marked_once, False), (marked_once, False),
             (marked_once, True), (marked_twice, False), (marked_twice, False),
             (marked_twice, False)]"
proof -
  have w1: "wait_for_next_commit waiting_tracker 25 (\<lambda>i. 0, 0) = Inr (Some 20, None)"
    by (simp add: wait_for_next_commit_def py_index_def waiting_tracker_def)
  have w2: "wait_for_next_commit marked_once 26 (\<lambda>i. 0, 0) = Inr (Some 30, Some 1)"
    by (simp add: wait_for_next_commit_def py_index_def marked_once_def waiting_tracker_def
          mark_commit_completed_def random_uniform_at)
  have w3: "wait_for_next_commit marked_twice 40 (\<lambda>i. 0, 0) = Inr (None, None)"
    by (simp add: wait_for_next_commit_def marked_twice_def marked_once_def waiting_tracker_def
          mark_commit_completed_def)
  show ?thesis
    by (simp add: window_ops_def w1 w2 w3 marked_once_def [symmetric] marked_twice_def [symmetric])
qed

theorem tracker_cursor_invariant_witness:
  "cursor_in_range waiting_tracker
   \<and> protocol_run window_ops (waiting_tracker, False)
       = Some [(waiting_tracker, True), (marked_once, False), (marked_once, False),
               (marked_once, True), (marked_twice, False), (marked_twice, False),
               (marked_twice, False)]
   \<and> map next_commit_idx [waiting_tracker, marked_once, marked_twice] = [1, 2, 3]
   \<and> list_all cursor_in_range [waiting_tracker, marked_once, marked_twice]"
proof -
  have h: "cursor_in_range waiting_tracker"
    by (simp add: cursor_in_range_def waiting_tracker_def)
  have i: "map next_commit_idx [waiting_tracker, marked_once, marked_twice] = [1, 2, 3]"
    by (simp add: marked_twice_def marked_once_def mark_commit_completed_fields waiting_tracker_def)
  show ?thesis
    using h i window_ops_run tracker_cursor_invariant [OF h window_ops_run] by simp
qed

text \<open>
  The cursor is also in range in a new tracker and after \<open>generate_new_schedule\<close>,
  which opens the next window.
\<close>

lemma new_scheduler_manager_cursor_in_range:
  "cursor_in_range (new_scheduler_manager min_per_day max_per_day)"
  by (simp add: cursor_in_range_def new_scheduler_manager_def)

lemma generate_new_schedule_cursor_in_range:
  assumes "generate_new_schedule sm start_from now g = Inr (sched, sm')"
  shows "cursor_in_range sm'"
  using generate_new_schedule_fields [OF assms] by (simp add: cursor_in_range_def)

section \<open>Properties of the repository agent\<close>

lemma perform_fields:
  assumes "perform w op a = (r, a')"
  shows "is_empty_repo a' = is_empty_repo a \<and> initial_commit_done a' = initial_commit_done a
       \<and> has_remotes a' = has_remotes a \<and> calls a' = calls a @ [op]
       \<and> (\<not> is_commit op \<longrightarrow> commits a' = commits a)"
  using assms
  by (cases op) (auto simp: perform_def Let_def split: sum.splits)

lemma add_each_fields:
  assumes "add_each w fs a = (r, a')"
  shows "is_empty_repo a' = is_empty_repo a \<and> initial_commit_done a' = initial_commit_done a
       \<and> commits a' = commits a
       \<and> (\<exists>ops. calls a' = calls a @ ops \<and> list_all (\<lambda>op. \<not> is_commit op) ops)"
  using assms
proof (induction fs arbitrary: a)
  case Nil
  then show ?case by simp
next
  case (Cons f fs)
  obtain r1 a1 where p: "perform w (GitAdd f) a = (r1, a1)"
    by (cases "perform w (GitAdd f) a") auto
  note pf = perform_fields [OF p]
  show ?case
  proof (cases r1)
    case (Inl e)
    then have "a' = a1" using Cons.prems by (simp add: p)
    then show ?thesis using pf by simp
  next
    case (Inr out)
    then have "add_each w fs a1 = (r, a')" using Cons.prems by (simp add: p)
    then have "is_empty_repo a' = is_empty_repo a1 \<and> initial_commit_done a' = initial_commit_done a1
       \<and> commits a' = commits a1
       \<and> (\<exists>ops. calls a' = calls a1 @ ops \<and> list_all (\<lambda>op. \<not> is_commit op) ops)"
      by (rule Cons.IH)
    then obtain ops where "calls a' = calls a1 @ ops" "list_all (\<lambda>op. \<not> is_commit op) ops"
      and "is_empty_repo a' = is_empty_repo a1" "initial_commit_done a' = initial_commit_done a1"
        "commits a' = commits a1"
      by blast
    then have "calls a' = calls a @ (GitAdd f # ops) \<and> list_all (\<lambda>op. \<not> is_commit op) (GitAdd f # ops)"
      using pf by simp
    then show ?thesis
      using pf \<open>is_empty_repo a' = is_empty_repo a1\<close>
        \<open>initial_commit_done a' = initial_commit_done a1\<close> \<open>commits a' = commits a1\<close>
      by (intro conjI exI [of _ "GitAdd f # ops"]) simp_all
  qed
qed

lemma stage_files_fields:
  assumes "stage_files w files a = (r, a')"
  shows "is_empty_repo a' = is_empty_repo a \<and> initial_commit_done a' = initial_commit_done a
       \<and> commits a' = commits a
       \<and> (\<exists>ops. calls a' = calls a @ ops \<and> list_all (\<lambda>op. \<not> is_commit op) ops)"
proof -
  have all: ?thesis if "perform w GitAddAll a = (r1, a')" for r1
    using perform_fields [OF that] by (intro conjI exI [of _ "[GitAddAll]"]) simp_all
  show ?thesis
  proof (cases files)
    case None
    then show ?thesis
      using assms all
      by (cases "perform w GitAddAll a") (auto simp: stage_files_def split: sum.splits)
  next
    case (Some fs)
    show ?thesis
    proof (cases fs)
      case Nil
      then show ?thesis
        using assms all Some
        by (cases "perform w GitAddAll a") (auto simp: stage_files_def split: sum.splits)
    next
      case (Cons f fs')
      then have "add_each w (f # fs') a = (r, a')"
        using assms Some by (simp add: stage_files_def)
      then show ?thesis by (rule add_each_fields)
    qed
  qed
qed

text \<open>
  C6. When staging succeeds and the status output is blank, \<open>commit_and_push\<close>
  returns \<open>(False, "No changes to commit")\<close> from its \<^verbatim>\<open>try\<close> block, not from a
  handler. No commit is attempted, the history is as before, and \<open>is_empty_repo\<close>
  and \<open>initial_commit_done\<close> are unchanged.
\<close>

theorem commit_and_push_no_changes:
  assumes "stage_files w files a = (Inr (), a1)"
    and "perform w GitStatusPorcelain a1 = (Inr status_output, a2)"
    and "strip status_output = []"
  shows "commit_and_push_try w commit_message files a = (Inr (False, ''No changes to commit''), a2)
       \<and> commit_and_push w commit_message files a = Some ((False, ''No changes to commit''), a2)
       \<and> commits a2 = commits a
       \<and> (\<exists>ops. calls a2 = calls a @ ops \<and> list_all (\<lambda>op. \<not> is_commit op) ops)
       \<and> is_empty_repo a2 = is_empty_repo a
       \<and> initial_commit_done a2 = initial_commit_done a"
proof -
  have t: "commit_and_push_try w commit_message files a = (Inr (False, ''No changes to commit''), a2)"
    using assms by (simp add: commit_and_push_try_def)
  then have c: "commit_and_push w commit_message files a = Some ((False, ''No changes to commit''), a2)"
    by (subst commit_and_push.simps) simp
  note s = stage_files_fields [OF assms(1)]
  note p = perform_fields [OF assms(2)]
  from s obtain ops where ops: "calls a1 = calls a @ ops" "list_all (\<lambda>op. \<not> is_commit op) ops"
    by blast
  have "calls a2 = calls a @ (ops @ [GitStatusPorcelain])
      \<and> list_all (\<lambda>op. \<not> is_commit op) (ops @ [GitStatusPorcelain])"
    using ops p by simp
  then have "\<exists>ops. calls a2 = calls a @ ops \<and> list_all (\<lambda>op. \<not> is_commit op) ops" by blast
  then show ?thesis using t c s p by simp
qed

theorem commit_and_push_no_changes_witness:
  "stage_files clean_world None fresh_agent = (Inr (), fresh_agent\<lparr> calls := [GitAddAll] \<rparr>)
   \<and> perform clean_world GitStatusPorcelain (fresh_agent\<lparr> calls := [GitAddAll] \<rparr>)
        = (Inr '''', fresh_agent\<lparr> calls := [GitAddAll, GitStatusPorcelain] \<rparr>)
   \<and> strip '''' = []
   \<and> commit_and_push clean_world ''Add article'' None fresh_agent
        = Some ((False, ''No changes to commit''),
                fresh_agent\<lparr> calls := [GitAddAll, GitStatusPorcelain] \<rparr>)"
proof -
  have h1: "stage_files clean_world None fresh_agent = (Inr (), fresh_agent\<lparr> calls := [GitAddAll] \<rparr>)"
    by (simp add: stage_files_def perform_def clean_world_def fresh_agent_def)
  have h2: "perform clean_world GitStatusPorcelain (fresh_agent\<lparr> calls := [GitAddAll] \<rparr>)
        = (Inr '''', fresh_agent\<lparr> calls := [GitAddAll, GitStatusPorcelain] \<rparr>)"
    by (simp add: perform_def clean_world_def fresh_agent_def)
  have h3: "strip '''' = []" by (simp add: strip_def)
  show ?thesis
    using h1 h2 h3 commit_and_push_no_changes [OF h1 h2 h3, of "''Add article''"] by simp
qed

lemma head_issue_head_message: "head_issue head_message"
  by (simp add: head_issue_def head_message_def)

lemma strip_status [simp]: "strip ''?? a.txt'' \<noteq> []" "strip '''' = []"
  by (simp_all add: strip_def is_space_def)

lemma head_fails_round:
  assumes "length (calls a) = 6 * j" and "j < n"
  shows "commit_and_push_try (head_fails n) msg None a
           = (Inl (GitCommandError head_message),
              a\<lparr> calls := calls a @ [GitAddAll, GitStatusPorcelain, IndexCommit msg] \<rparr>)"
    and "create_initial_commit (head_fails n)
           (a\<lparr> calls := calls a @ [GitAddAll, GitStatusPorcelain, IndexCommit msg],
               is_empty_repo := True \<rparr>)
           = (True, a\<lparr> calls := calls a @ [GitAddAll, GitStatusPorcelain, IndexCommit msg,
                                          WriteReadme, GitAddAll, IndexCommit initial_commit_message],
                       commits := commits a @ [initial_commit_message],
                       is_empty_repo := False, initial_commit_done := True \<rparr>)"
proof -
  have k: "6 * j + i < 6 * n" if "i < 6" for i using assms(2) that by simp
  have w: "head_fails n (6 * j) = Inr ''''" "head_fails n (Suc (6 * j)) = Inr ''?? a.txt''"
    "head_fails n (Suc (Suc (6 * j))) = Inl (GitCommandError head_message)"
    "head_fails n (Suc (Suc (Suc (6 * j)))) = Inr ''''"
    "head_fails n (Suc (Suc (Suc (Suc (6 * j))))) = Inr ''''"
    "head_fails n (Suc (Suc (Suc (Suc (Suc (6 * j)))))) = Inr ''''"
    using k [of 0] k [of 1] k [of 2] k [of 3] k [of 4] k [of 5]
    by (simp_all add: head_fails_def mod_Suc)
  show "commit_and_push_try (head_fails n) msg None a
           = (Inl (GitCommandError head_message),
              a\<lparr> calls := calls a @ [GitAddAll, GitStatusPorcelain, IndexCommit msg] \<rparr>)"
    by (simp add: commit_and_push_try_def stage_files_def perform_def assms(1) w)
  show "create_initial_commit (head_fails n)
           (a\<lparr> calls := calls a @ [GitAddAll, GitStatusPorcelain, IndexCommit msg],
               is_empty_repo := True \<rparr>)
           = (True, a\<lparr> calls := calls a @ [GitAddAll, GitStatusPorcelain, IndexCommit msg,
                                          WriteReadme, GitAddAll, IndexCommit initial_commit_message],
                       commits := commits a @ [initial_commit_message],
                       is_empty_repo := False, initial_commit_done := True \<rparr>)"
    by (simp add: create_initial_commit_def perform_def assms(1) w)
qed

lemma head_fails_clean:
  assumes "length (calls a) = 6 * n"
  shows "commit_and_push (head_fails n) msg None a
           = Some ((False, ''No changes to commit''),
                   a\<lparr> calls := calls a @ [GitAddAll, GitStatusPorcelain] \<rparr>)"
proof -
  have "commit_and_push_try (head_fails n) msg None a
          = (Inr (False, ''No changes to commit''),
             a\<lparr> calls := calls a @ [GitAddAll, GitStatusPorcelain] \<rparr>)"
    by (simp add: commit_and_push_try_def stage_files_def perform_def assms head_fails_def)
  then show ?thesis by (subst commit_and_push.simps) simp
qed

lemma head_fails_rounds:
  assumes "length (calls a) = 6 * j" and "j + d = n"
  shows "\<exists>a'. commit_and_push (head_fails n) msg None a
                 = Some ((False, ''No changes to commit''), a')
             \<and> commits a' = commits a @ replicate d initial_commit_message
             \<and> length (calls a') = 6 * n + 2"
  using assms
proof (induction d arbitrary: a j)
  case 0
  then have "length (calls a) = 6 * n" by simp
  then show ?case using head_fails_clean [of a n msg] by simp
next
  case (Suc d)
  then have jn: "j < n" by simp
  define a1 where "a1 = a\<lparr> calls := calls a @ [GitAddAll, GitStatusPorcelain, IndexCommit msg] \<rparr>"
  define a2 where "a2 = a\<lparr> calls := calls a @ [GitAddAll, GitStatusPorcelain, IndexCommit msg,
                                          WriteReadme, GitAddAll, IndexCommit initial_commit_message],
                       commits := commits a @ [initial_commit_message],
                       is_empty_repo := False, initial_commit_done := True \<rparr>"
  have t: "commit_and_push_try (head_fails n) msg None a = (Inl (GitCommandError head_message), a1)"
    unfolding a1_def using Suc.prems(1) jn by (rule head_fails_round(1))
  have c: "create_initial_commit (head_fails n) (a1\<lparr> is_empty_repo := True \<rparr>) = (True, a2)"
    unfolding a1_def a2_def using head_fails_round(2) [OF Suc.prems(1) jn, of msg] by simp
  have step: "commit_and_push (head_fails n) msg None a = commit_and_push (head_fails n) msg None a2"
    by (subst commit_and_push.simps) (simp add: t c head_issue_head_message)
  have "length (calls a2) = 6 * Suc j" using Suc.prems(1) by (simp add: a2_def)
  moreover have "Suc j + d = n" using Suc.prems(2) by simp
  ultimately obtain a' where
    "commit_and_push (head_fails n) msg None a2 = Some ((False, ''No changes to commit''), a')"
    "commits a' = commits a2 @ replicate d initial_commit_message"
    "length (calls a') = 6 * n + 2"
    using Suc.IH by blast
  then show ?case
    using step by (simp add: a2_def replicate_append_same [symmetric] del: replicate_Suc replicate.simps)
        (simp add: replicate_app_Cons_same)
qed

lemma create_initial_commit_fields:
  assumes "create_initial_commit w a = (created, a')"
  shows "if created
         then \<not> is_empty_repo a' \<and> initial_commit_done a'
              \<and> commits a' = commits a @ [initial_commit_message]
         else is_empty_repo a' = is_empty_repo a
              \<and> initial_commit_done a' = initial_commit_done a \<and> commits a' = commits a"
proof -
  obtain r1 a1 where p1: "perform w WriteReadme a = (r1, a1)"
    by (cases "perform w WriteReadme a") auto
  obtain r2 a2 where p2: "perform w GitAddAll a1 = (r2, a2)"
    by (cases "perform w GitAddAll a1") auto
  obtain r3 a3 where p3: "perform w (IndexCommit initial_commit_message) a2 = (r3, a3)"
    by (cases "perform w (IndexCommit initial_commit_message) a2") auto
  note f1 = perform_fields [OF p1] and f2 = perform_fields [OF p2] and f3 = perform_fields [OF p3]
  have c3: "commits a3 = (case r3 of Inl e \<Rightarrow> commits a2 | Inr out \<Rightarrow> commits a2 @ [initial_commit_message])"
    using p3 by (auto simp: perform_def Let_def split: sum.splits)
  show ?thesis
    using assms f1 f2 f3 c3
    by (auto simp: create_initial_commit_def p1 p2 p3 split: sum.splits)
qed

text \<open>
  C1, amended. When the \<^verbatim>\<open>try\<close> block fails with a \<^verbatim>\<open>GitCommandError\<close>
  that names \<open>HEAD\<close> and says "did not resolve" or "not a valid object", the agent
  marks the repository empty and runs \<open>create_initial_commit\<close> once for this
  failure. If the initial commit fails, the result is
  \<open>(False, "Failed to create initial commit")\<close> and the repository stays marked
  empty. If it succeeds, \<open>commit_and_push\<close> calls itself on the resulting state and
  returns whatever that call returns; that call recovers in the same way, so the
  number of initial commits is not bounded by 1.
\<close>

theorem commit_and_push_head_recovery:
  assumes "commit_and_push_try w commit_message files a = (Inl (GitCommandError m), a1)"
    and "head_issue m"
    and "create_initial_commit w (a1\<lparr> is_empty_repo := True \<rparr>) = (created, a2)"
  shows "commit_and_push w commit_message files a =
           (if created then commit_and_push w commit_message files a2
            else Some ((False, ''Failed to create initial commit''), a2))
       \<and> (if created
           then \<not> is_empty_repo a2 \<and> initial_commit_done a2
                \<and> commits a2 = commits a1 @ [initial_commit_message]
           else is_empty_repo a2 \<and> commits a2 = commits a1)"
proof -
  have "commit_and_push w commit_message files a =
           (if created then commit_and_push w commit_message files a2
            else Some ((False, ''Failed to create initial commit''), a2))"
    by (subst commit_and_push.simps) (simp add: assms)
  moreover have "if created
           then \<not> is_empty_repo a2 \<and> initial_commit_done a2
                \<and> commits a2 = commits a1 @ [initial_commit_message]
           else is_empty_repo a2 \<and> commits a2 = commits a1"
    using create_initial_commit_fields [OF assms(3)] by (simp split: if_splits)
  ultimately show ?thesis by simp
qed

theorem commit_and_push_head_recovery_witness:
  "commit_and_push_try (head_fails 1) ''Add article'' None fresh_agent
     = (Inl (GitCommandError head_message), after_first_try)
   \<and> head_issue head_message
   \<and> create_initial_commit (head_fails 1) (after_first_try\<lparr> is_empty_repo := True \<rparr>)
       = (True, after_bootstrap)
   \<and> commit_and_push (head_fails 1) ''Add article'' None fresh_agent
       = commit_and_push (head_fails 1) ''Add article'' None after_bootstrap
   \<and> commit_and_push (head_fails 1) ''Add article'' None after_bootstrap
       = Some ((False, ''No changes to commit''),
               after_bootstrap\<lparr> calls := calls after_bootstrap @ [GitAddAll, GitStatusPorcelain] \<rparr>)"
proof -
  have l: "length (calls fresh_agent) = 6 * 0" by (simp add: fresh_agent_def)
  have h1: "commit_and_push_try (head_fails 1) ''Add article'' None fresh_agent
     = (Inl (GitCommandError head_message), after_first_try)"
    using head_fails_round(1) [OF l, of 1 "''Add article''"]
    by (simp add: after_first_try_def fresh_agent_def)
  have h3: "create_initial_commit (head_fails 1) (after_first_try\<lparr> is_empty_repo := True \<rparr>)
       = (True, after_bootstrap)"
    using head_fails_round(2) [OF l, of 1 "''Add article''"]
    by (simp add: after_first_try_def after_bootstrap_def fresh_agent_def)
  have "length (calls after_bootstrap) = 6 * 1" by (simp add: after_bootstrap_def fresh_agent_def)
  then have c: "commit_and_push (head_fails 1) ''Add article'' None after_bootstrap
       = Some ((False, ''No changes to commit''),
               after_bootstrap\<lparr> calls := calls after_bootstrap @ [GitAddAll, GitStatusPorcelain] \<rparr>)"
    by (rule head_fails_clean)
  show ?thesis
    using h1 h3 c head_issue_head_message
      commit_and_push_head_recovery [OF h1 head_issue_head_message h3]
    by simp
qed

text \<open>
  C1 as stated fails. On a repository whose first two commits fail on \<open>HEAD\<close> while
  the initial commits succeed, one call of \<open>commit_and_push\<close> creates two initial
  commits, and what it returns is the outcome of its third attempt
  (\<open>"No changes to commit"\<close>), not the outcome of an initial commit.
\<close>

theorem commit_and_push_recovers_twice:
  "map_option fst (commit_and_push (head_fails 2) ''Add article'' None fresh_agent)
     = Some (False, ''No changes to commit'')
   \<and> map_option (\<lambda>r. commits (snd r)) (commit_and_push (head_fails 2) ''Add article'' None fresh_agent)
     = Some [initial_commit_message, initial_commit_message]
   \<and> map_option (\<lambda>r. bootstraps (snd r)) (commit_and_push (head_fails 2) ''Add article'' None fresh_agent)
     = Some 2"
proof -
  have "length (calls fresh_agent) = 6 * 0" by (simp add: fresh_agent_def)
  moreover have "0 + 2 = (2::nat)" by simp
  ultimately obtain a' where
    r: "commit_and_push (head_fails 2) ''Add article'' None fresh_agent
          = Some ((False, ''No changes to commit''), a')"
    and c: "commits a' = commits fresh_agent @ replicate 2 initial_commit_message"
    using head_fails_rounds [of fresh_agent 0 2 2 "''Add article''"] by blast
  have "commits a' = [initial_commit_message, initial_commit_message]"
    using c by (simp add: fresh_agent_def numeral_2_eq_2)
  then show ?thesis using r by (simp add: bootstraps_def)
qed

text \<open>
  For every \<open>n\<close> there is a repository on which one call of \<open>commit_and_push\<close>
  creates \<open>n\<close> initial commits before it returns.
\<close>

lemma commit_and_push_recovery_unbounded:
  "\<exists>a'. commit_and_push (head_fails n) msg None fresh_agent
           = Some ((False, ''No changes to commit''), a')
       \<and> bootstraps a' = n"
proof -
  have "length (calls fresh_agent) = 6 * 0" by (simp add: fresh_agent_def)
  moreover have "0 + n = n" by simp
  ultimately obtain a' where
    "commit_and_push (head_fails n) msg None fresh_agent
          = Some ((False, ''No changes to commit''), a')"
    "commits a' = commits fresh_agent @ replicate n initial_commit_message"
    using head_fails_rounds [of fresh_agent 0 n n msg] by blast
  then show ?thesis by (auto simp: bootstraps_def fresh_agent_def)
qed

section \<open>Properties of the scheduled-commit loop\<close>

lemma loop_body_undisturbed:
  assumes "undisturbed st it"
    and "0 \<le> next_commit_idx (scheduler a)"
    and "next_commit_idx (scheduler a) < int (length (schedule (scheduler a)))"
  shows "\<exists>a1. loop_body it a = (Continue, a1)
       \<and> running a1 = running a
       \<and> schedule (scheduler a1) = schedule (scheduler a)
       \<and> start_time (scheduler a1) = start_time (scheduler a)
       \<and> cycles_run a1 = Suc (cycles_run a)
       \<and> next_commit_idx (scheduler a1)
            = next_commit_idx (scheduler a) + (if is_returned (cycle it) then 1 else 0)
       \<and> pauses a1 = pauses a @ (if is_raised (cycle it) then [5] else [])"
proof -
  obtain slept where w: "wait_for_next_commit (scheduler a) (clock_wait it) (wait_rng it)
      = Inr (Some (schedule (scheduler a) ! nat (next_commit_idx (scheduler a))), slept)"
    using wait_for_next_commit_in_range [OF assms(2,3)] by blast
  show ?thesis
    using assms(1)
    by (cases "cycle it")
       (simp_all add: loop_body_def w undisturbed_def on_exception_def Let_def
          mark_commit_completed_fields)
qed

text \<open>
  C7. As long as no signal arrives, nothing is cancelled, the window is open at the
  loop test and the schedule has entries left, the loop goes on to the next pass
  whatever the commit cycles do: after any such passes it is still running. A cycle
  that returns (success or failure) advances the cursor; a cycle that raises an
  exception is followed by one pause of five seconds and leaves the cursor where it
  was. So the loop ends only by a signal or cancellation, at the end of the window, or
  when the schedule is used up.
\<close>

theorem scheduled_loop_survives:
  assumes "list_all (undisturbed st) its"
    and "running a" and "start_time (scheduler a) = Some st"
    and "0 \<le> next_commit_idx (scheduler a)"
    and "next_commit_idx (scheduler a) + int (length its) \<le> int (length (schedule (scheduler a)))"
  shows "\<exists>a'. scheduled_loop its a = (None, a')
       \<and> running a'
       \<and> cycles_run a' = cycles_run a + length its
       \<and> pauses a' = pauses a @ replicate (length (filter (\<lambda>it. is_raised (cycle it)) its)) 5
       \<and> next_commit_idx (scheduler a')
            = next_commit_idx (scheduler a)
              + int (length (filter (\<lambda>it. is_returned (cycle it)) its))"
  using assms
proof (induction its arbitrary: a)
  case Nil
  then show ?case by simp
next
  case (Cons it its)
  have u: "undisturbed st it" and us: "list_all (undisturbed st) its"
    using Cons.prems(1) by simp_all
  have lt: "next_commit_idx (scheduler a) < int (length (schedule (scheduler a)))"
    using Cons.prems(5) by simp
  have test: "running a \<and> \<not> should_stop (scheduler a) (clock_test it)"
    using Cons.prems(2,3) lt u by (simp add: should_stop_def undisturbed_def Let_def)
  obtain a1 where b: "loop_body it a = (Continue, a1)"
    and f: "running a1 = running a" "schedule (scheduler a1) = schedule (scheduler a)"
      "start_time (scheduler a1) = start_time (scheduler a)"
      "cycles_run a1 = Suc (cycles_run a)"
      "next_commit_idx (scheduler a1)
            = next_commit_idx (scheduler a) + (if is_returned (cycle it) then 1 else 0)"
      "pauses a1 = pauses a @ (if is_raised (cycle it) then [5] else [])"
    using loop_body_undisturbed [OF u Cons.prems(4) lt] by blast
  have step: "scheduled_loop (it # its) a = scheduled_loop its a1"
    using test u b by (simp add: undisturbed_def)
  have "\<exists>a'. scheduled_loop its a1 = (None, a')
       \<and> running a'
       \<and> cycles_run a' = cycles_run a1 + length its
       \<and> pauses a' = pauses a1 @ replicate (length (filter (\<lambda>it. is_raised (cycle it)) its)) 5
       \<and> next_commit_idx (scheduler a')
            = next_commit_idx (scheduler a1)
              + int (length (filter (\<lambda>it. is_returned (cycle it)) its))"
  proof (rule Cons.IH [OF us])
    show "running a1" using f Cons.prems(2) by simp
    show "start_time (scheduler a1) = Some st" using f Cons.prems(3) by simp
    show "0 \<le> next_commit_idx (scheduler a1)" using f Cons.prems(4) by simp
    show "next_commit_idx (scheduler a1) + int (length its) \<le> int (length (schedule (scheduler a1)))"
      using f Cons.prems(5) by simp
  qed
  then obtain a' where r: "scheduled_loop its a1 = (None, a')" "running a'"
    "cycles_run a' = cycles_run a1 + length its"
    "pauses a' = pauses a1 @ replicate (length (filter (\<lambda>it. is_raised (cycle it)) its)) 5"
    "next_commit_idx (scheduler a')
            = next_commit_idx (scheduler a1)
              + int (length (filter (\<lambda>it. is_returned (cycle it)) its))"
    by blast
  show ?case
    using step r f by (simp add: replicate_append_same)
qed

theorem scheduled_loop_survives_witness:
  "list_all (undisturbed 0) [failing_pass, raising_pass]
   \<and> running started_app \<and> start_time (scheduler started_app) = Some 0
   \<and> 0 \<le> next_commit_idx (scheduler started_app)
   \<and> next_commit_idx (scheduler started_app) + int (length [failing_pass, raising_pass])
        \<le> int (length (schedule (scheduler started_app)))
   \<and> (\<exists>a'. scheduled_loop [failing_pass, raising_pass] started_app = (None, a')
         \<and> running a' \<and> cycles_run a' = 2 \<and> pauses a' = [5]
         \<and> next_commit_idx (scheduler a') = 2)"
proof -
  have h1: "list_all (undisturbed 0) [failing_pass, raising_pass]"
    by (simp add: undisturbed_def failing_pass_def raising_pass_def timedelta_hours_def
          COMMIT_WINDOW_HOURS_def)
  have h2: "running started_app" and h3: "start_time (scheduler started_app) = Some 0"
    and h4: "0 \<le> next_commit_idx (scheduler started_app)"
    and h5: "next_commit_idx (scheduler started_app) + int (length [failing_pass, raising_pass])
        \<le> int (length (schedule (scheduler started_app)))"
    by (simp_all add: started_app_def waiting_tracker_def)
  have c: "cycles_run started_app = 0" "pauses started_app = []"
    "next_commit_idx (scheduler started_app) = 1"
    by (simp_all add: started_app_def waiting_tracker_def)
  have f: "filter (\<lambda>it. is_raised (cycle it)) [failing_pass, raising_pass] = [raising_pass]"
    "filter (\<lambda>it. is_returned (cycle it)) [failing_pass, raising_pass] = [failing_pass]"
    by (simp_all add: failing_pass_def raising_pass_def)
  obtain a' where r: "scheduled_loop [failing_pass, raising_pass] started_app = (None, a')"
    "running a'"
    "cycles_run a' = cycles_run started_app + length [failing_pass, raising_pass]"
    "pauses a' = pauses started_app
       @ replicate (length (filter (\<lambda>it. is_raised (cycle it)) [failing_pass, raising_pass])) 5"
    "next_commit_idx (scheduler a') = next_commit_idx (scheduler started_app)
       + int (length (filter (\<lambda>it. is_returned (cycle it)) [failing_pass, raising_pass]))"
    using scheduled_loop_survives [OF h1 h2 h3 h4 h5] by blast
  have "cycles_run a' = 2" "pauses a' = [5]" "next_commit_idx (scheduler a') = 2"
    using r(3,4,5) unfolding f c by simp_all
  then have "\<exists>a'. scheduled_loop [failing_pass, raising_pass] started_app = (None, a')
         \<and> running a' \<and> cycles_run a' = 2 \<and> pauses a' = [5]
         \<and> next_commit_idx (scheduler a') = 2"
    using r(1,2) by blast
  then show ?thesis using h1 h2 h3 h4 h5 by (simp only: simp_thms)
qed

lemma scheduled_loop_ends_on_signal:
  "fst (scheduled_loop (it\<lparr> signalled := True \<rparr> # its) a) = Some TestFailed"
  by simp

lemma scheduled_loop_ends_after_window:
  assumes "start_time (scheduler a) = Some st"
    and "st + timedelta_hours COMMIT_WINDOW_HOURS \<le> clock_test it"
  shows "fst (scheduled_loop (it # its) a) = Some TestFailed"
  using assms by (simp add: should_stop_def Let_def)

lemma scheduled_loop_ends_on_exhaustion:
  assumes "start_time (scheduler a) = Some st"
    and "int (length (schedule (scheduler a))) \<le> next_commit_idx (scheduler a)"
  shows "fst (scheduled_loop (it # its) a) = Some TestFailed"
  using assms by (simp add: should_stop_def Let_def)

end
